theory Spec2Isabelle
  imports Complex_Main "HOL-Library.Sublist" "HOL-Library.Monad_Syntax"
begin

section \<open>JavaScript values\<close>

text \<open>
  A JavaScript string is a sequence of UTF-16 code units; \<open>length\<close>, \<open>slice\<close> and the
  regular expressions of the source all count code units. \<open>str\<close> turns an ASCII literal
  of the theory into such a sequence.
\<close>

type_synonym jsstring = "nat list"

definition str :: "string \<Rightarrow> jsstring" where
  "str s = map of_char s"

text \<open>
  The numbers the scorer computes are sums of small integer literals, far below \<open>2^53\<close>, so a
  double holds them exactly; the only other number that can arise there is \<open>NaN\<close>.
\<close>

datatype jsnum = Num int | NaN

fun num_add :: "jsnum \<Rightarrow> jsnum \<Rightarrow> jsnum" where
  "num_add (Num a) (Num b) = Num (a + b)"
| "num_add _ _ = NaN"

fun num_sub :: "jsnum \<Rightarrow> jsnum \<Rightarrow> jsnum" where
  "num_sub (Num a) (Num b) = Num (a - b)"
| "num_sub _ _ = NaN"

text \<open>\<open>Math.max\<close> returns \<open>NaN\<close> as soon as one argument is \<open>NaN\<close>.\<close>

fun Math_max :: "jsnum \<Rightarrow> jsnum \<Rightarrow> jsnum" where
  "Math_max (Num a) (Num b) = Num (max a b)"
| "Math_max _ _ = NaN"

text \<open>The comparison \<open>a <= b\<close> of two numbers; it is false when either is \<open>NaN\<close>.\<close>

fun num_le :: "jsnum \<Rightarrow> jsnum \<Rightarrow> bool" where
  "num_le (Num a) (Num b) = (a \<le> b)"
| "num_le _ _ = False"

text \<open>
  Reading \<open>obj[key]\<close> on an object literal finds the literal's own properties first and
  then the properties every object inherits from \<open>Object.prototype\<close>, which are functions
  (an object for \<open>__proto__\<close>) and therefore truthy; any other key reads \<open>undefined\<close>.
\<close>

definition object_prototype_names :: "jsstring list" where
  "object_prototype_names = map str
     [''constructor'', ''__defineGetter__'', ''__defineSetter__'', ''hasOwnProperty'',
      ''__lookupGetter__'', ''__lookupSetter__'', ''isPrototypeOf'', ''propertyIsEnumerable'',
      ''toString'', ''valueOf'', ''__proto__'', ''toLocaleString'']"

datatype 'a property = Own 'a | Inherited | Undefined

definition get_prop :: "(jsstring \<times> 'a) list \<Rightarrow> jsstring \<Rightarrow> 'a property" where
  "get_prop obj key =
     (case map_of obj key of
        Some v \<Rightarrow> Own v
      | None \<Rightarrow> if key \<in> set object_prototype_names then Inherited else Undefined)"

text \<open>
  \<open>String.prototype.toLowerCase\<close>, code unit by code unit. Outside ASCII only U+0130 and
  U+212A have a lower-case form that contains an ASCII letter; every other code unit from
  128 on maps to code units from 128 on and is left as it is here, which does not change
  whether an ASCII pattern occurs in the result.
\<close>

definition lower_unit :: "nat \<Rightarrow> nat list" where
  "lower_unit c =
     (if 65 \<le> c \<and> c \<le> 90 then [c + 32]
      else if c = 304 then [105, 775]
      else if c = 8490 then [107]
      else [c])"

definition toLowerCase :: "jsstring \<Rightarrow> jsstring" where
  "toLowerCase s = concat (map lower_unit s)"

text \<open>\<open>s.includes(p)\<close>: \<open>p\<close> occurs in \<open>s\<close> as a contiguous run.\<close>

fun js_includes :: "jsstring \<Rightarrow> jsstring \<Rightarrow> bool" where
  "js_includes [] p = (p = [])"
| "js_includes (x # xs) p = (prefix p (x # xs) \<or> js_includes xs p)"

text \<open>The decimal digits of a length, as a template literal prints it.\<close>

fun toString_nat :: "nat \<Rightarrow> jsstring" where
  "toString_nat n = (if n < 10 then [48 + n] else toString_nat (n div 10) @ [48 + n mod 10])"

section \<open>LegalKnowledgeService\<close>

subsection \<open>getLegalRequirement\<close>

text \<open>
  The cache, the vectorizer's \<open>queryLegalRequirement\<close> and the JSON functions are the
  collaborators of \<open>getLegalRequirement\<close>. Each awaited call either returns or rejects
  with an error. \<open>'r\<close> is the state of the cache, \<open>'c\<close> the context and \<open>'a\<close> the answer.
\<close>

datatype error = Error jsstring

record ('r, 'c, 'a) services =
  redis_get :: "'r \<Rightarrow> jsstring \<Rightarrow> error + jsstring option"
  redis_setEx :: "'r \<Rightarrow> jsstring \<Rightarrow> nat \<Rightarrow> jsstring \<Rightarrow> error + 'r"
  queryLegalRequirement :: "jsstring \<Rightarrow> 'c \<Rightarrow> error + 'a"
  JSON_stringify_context :: "'c \<Rightarrow> jsstring"
  JSON_stringify :: "'a \<Rightarrow> jsstring"
  JSON_parse :: "jsstring \<Rightarrow> error + 'a"

datatype log_entry = Info jsstring | Failed jsstring error

text \<open>What a call leaves behind: the lines logged, the cache, and the value or the error.\<close>

record ('r, 'a) outcome =
  logged :: "log_entry list"
  cache :: 'r
  result :: "error + 'a"

definition cacheKey :: "('r, 'c, 'a) services \<Rightarrow> jsstring \<Rightarrow> 'c \<Rightarrow> jsstring" where
  "cacheKey sv requirementType context =
     str ''legal:'' @ requirementType @ str '':'' @ JSON_stringify_context sv context"

text \<open>
  The \<open>catch\<close> block: the error is logged, after the lines logged before it was thrown,
  and thrown again.
\<close>

definition rethrow :: "log_entry list \<Rightarrow> 'r \<Rightarrow> jsstring \<Rightarrow> error \<Rightarrow> ('r, 'a) outcome" where
  "rethrow before r requirementType e =
     \<lparr> logged = before
         @ [Failed (str ''Failed to get legal requirement '' @ requirementType @ str '':'') e],
       cache = r,
       result = Inl e \<rparr>"

definition getLegalRequirement ::
  "('r, 'c, 'a) services \<Rightarrow> 'r \<Rightarrow> jsstring \<Rightarrow> 'c \<Rightarrow> ('r, 'a) outcome" where
  "getLegalRequirement sv r requirementType context =
     (let key = cacheKey sv requirementType context
      in case redis_get sv r key of
           Inl e \<Rightarrow> rethrow [] r requirementType e
         | Inr cached \<Rightarrow>
             if cached \<noteq> None \<and> cached \<noteq> Some []
             then (let hit = Info (str ''Cache hit for '' @ requirementType)
                   in case JSON_parse sv (the cached) of
                        Inl e \<Rightarrow> rethrow [hit] r requirementType e
                      | Inr answer \<Rightarrow> \<lparr> logged = [hit], cache = r, result = Inr answer \<rparr>)
             else (case queryLegalRequirement sv requirementType context of
                     Inl e \<Rightarrow> rethrow [] r requirementType e
                   | Inr requirement \<Rightarrow>
                       (case redis_setEx sv r key 86400 (JSON_stringify sv requirement) of
                          Inl e \<Rightarrow> rethrow [] r requirementType e
                        | Inr r' \<Rightarrow>
                            \<lparr> logged = [], cache = r', result = Inr requirement \<rparr>)))"

section \<open>Regular expressions\<close>

text \<open>
  The regular expressions of the source are built from literal words, the classes \<open>\s\<close>,
  \<open>\d\<close>, \<open>[a-z]\<close> and \<open>[A-Z]\<close>, greedy quantifiers on a single class, optional groups,
  capturing groups, one alternative and one lookahead. \<open>rx\<close> is that fragment.
\<close>

datatype atom = Space | Digit | Range nat nat

datatype rx =
    Lit jsstring
  | Atom atom
  | Plus atom
  | Star atom
  | Times nat atom
  | Seq rx rx
  | Alt rx rx
  | Opt rx
  | Group nat rx
  | Look rx

definition seq :: "rx list \<Rightarrow> rx" where
  "seq rs = foldr Seq rs (Lit [])"

text \<open>
  \<open>\s\<close> matches the white space and line terminator code units; \<open>trim\<close> strips the same
  set.
\<close>

definition is_space :: "nat \<Rightarrow> bool" where
  "is_space c \<longleftrightarrow>
     (9 \<le> c \<and> c \<le> 13) \<or> c = 32 \<or> c = 160 \<or> c = 5760 \<or> (8192 \<le> c \<and> c \<le> 8202)
     \<or> c = 8232 \<or> c = 8233 \<or> c = 8239 \<or> c = 8287 \<or> c = 12288 \<or> c = 65279"

definition is_digit :: "nat \<Rightarrow> bool" where
  "is_digit c \<longleftrightarrow> 48 \<le> c \<and> c \<le> 57"

text \<open>
  Under the \<open>i\<close> flag two code units match when their canonical forms are equal. The
  canonical form of an ASCII letter is its upper case; a code unit from 128 on never has an
  ASCII canonical form, and no other code unit has the canonical form of the two Thai
  letters of the third section pattern, so on the patterns of the source it is enough to
  canonicalize the ASCII letters.
\<close>

definition canonicalize :: "bool \<Rightarrow> nat \<Rightarrow> nat" where
  "canonicalize ic c = (if ic \<and> 97 \<le> c \<and> c \<le> 122 then c - 32 else c)"

fun atom_match :: "bool \<Rightarrow> atom \<Rightarrow> nat \<Rightarrow> bool" where
  "atom_match ic Space c = is_space c"
| "atom_match ic Digit c = is_digit c"
| "atom_match ic (Range lo hi) c =
     list_ex (\<lambda>a. canonicalize ic a = canonicalize ic c) [lo ..< Suc hi]"

definition run :: "bool \<Rightarrow> atom \<Rightarrow> jsstring \<Rightarrow> nat" where
  "run ic a s = length (takeWhile (atom_match ic a) s)"

text \<open>
  The backtracking matcher. \<open>matches ic r s c\<close> lists, in the order in which backtracking
  tries them, the ways \<open>r\<close> matches at the start of \<open>s\<close>: the number of code units
  consumed and the captures, most recent first. A greedy quantifier tries the longest run
  first, an optional group tries its body first, and an iteration of a quantifier that
  consumes nothing is rejected. The match the engine reports is the head of the list.
\<close>

type_synonym captures = "(nat \<times> jsstring) list"

fun matches :: "bool \<Rightarrow> rx \<Rightarrow> jsstring \<Rightarrow> captures \<Rightarrow> (nat \<times> captures) list" where
  "matches ic (Lit w) s c =
     (if length w \<le> length s
         \<and> map (canonicalize ic) (take (length w) s) = map (canonicalize ic) w
      then [(length w, c)] else [])"
| "matches ic (Atom a) s c =
     (case s of [] \<Rightarrow> [] | x # _ \<Rightarrow> if atom_match ic a x then [(1, c)] else [])"
| "matches ic (Plus a) s c = map (\<lambda>k. (k, c)) (rev [1 ..< Suc (run ic a s)])"
| "matches ic (Star a) s c = map (\<lambda>k. (k, c)) (rev [0 ..< Suc (run ic a s)])"
| "matches ic (Times n a) s c = (if n \<le> run ic a s then [(n, c)] else [])"
| "matches ic (Seq r1 r2) s c =
     concat (map (\<lambda>(k1, c1). map (\<lambda>(k2, c2). (k1 + k2, c2)) (matches ic r2 (drop k1 s) c1))
                 (matches ic r1 s c))"
| "matches ic (Alt r1 r2) s c = matches ic r1 s c @ matches ic r2 s c"
| "matches ic (Opt r) s c = filter (\<lambda>(k, c'). k \<noteq> 0) (matches ic r s c) @ [(0, c)]"
| "matches ic (Group n r) s c = map (\<lambda>(k, c'). (k, (n, take k s) # c')) (matches ic r s c)"
| "matches ic (Look r) s c =
     (case matches ic r s c of [] \<Rightarrow> [] | (k, c') # _ \<Rightarrow> [(0, c')])"

text \<open>
  The sequence case of the matcher, taking the matches of the first part one at a time;
  it is the form in which a sequence is evaluated.
\<close>

fun seq_results :: "bool \<Rightarrow> rx \<Rightarrow> jsstring \<Rightarrow> (nat \<times> captures) list \<Rightarrow> (nat \<times> captures) list" where
  "seq_results ic r2 s [] = []"
| "seq_results ic r2 s ((k1, c1) # rest) =
     map (\<lambda>(k2, c2). (k1 + k2, c2)) (matches ic r2 (drop k1 s) c1) @ seq_results ic r2 s rest"

text \<open>A regular expression that cannot match without consuming a code unit.\<close>

fun nonnull :: "rx \<Rightarrow> bool" where
  "nonnull (Lit w) = (w \<noteq> [])"
| "nonnull (Atom a) = True"
| "nonnull (Plus a) = True"
| "nonnull (Star a) = False"
| "nonnull (Times n a) = (0 < n)"
| "nonnull (Seq r1 r2) = (nonnull r1 \<or> nonnull r2)"
| "nonnull (Alt r1 r2) = (nonnull r1 \<and> nonnull r2)"
| "nonnull (Opt r) = False"
| "nonnull (Group n r) = nonnull r"
| "nonnull (Look r) = False"

record regex =
  pattern :: rx
  ignoreCase :: bool

text \<open>
  The result of \<open>exec\<close>: where the match starts, the matched text \<open>match[0]\<close> and the
  captures; \<open>group mt n\<close> is \<open>match[n]\<close>, \<open>None\<close> for \<open>undefined\<close>.
\<close>

record match =
  index :: nat
  matched :: jsstring
  groups :: captures

definition group :: "match \<Rightarrow> nat \<Rightarrow> jsstring option" where
  "group mt n = map_of (groups mt) n"

text \<open>\<open>search re i s\<close> tries the position \<open>i\<close>, where the text goes on with \<open>s\<close>, then the next ones.\<close>

fun search :: "regex \<Rightarrow> nat \<Rightarrow> jsstring \<Rightarrow> match option" where
  "search re i [] =
     (case matches (ignoreCase re) (pattern re) [] [] of
        (k, c) # _ \<Rightarrow> Some \<lparr> index = i, matched = [], groups = c \<rparr>
      | [] \<Rightarrow> None)"
| "search re i (x # s) =
     (case matches (ignoreCase re) (pattern re) (x # s) [] of
        (k, c) # _ \<Rightarrow> Some \<lparr> index = i, matched = take k (x # s), groups = c \<rparr>
      | [] \<Rightarrow> search re (Suc i) s)"

text \<open>\<open>re.exec(text)\<close> of a global regular expression whose \<open>lastIndex\<close> is given.\<close>

definition exec :: "regex \<Rightarrow> jsstring \<Rightarrow> nat \<Rightarrow> match option" where
  "exec re text lastIndex =
     (if lastIndex > length text then None else search re lastIndex (drop lastIndex text))"

text \<open>
  \<open>while ((match = re.exec(text)) !== null) references.push(mk(match))\<close>. After a match
  \<open>lastIndex\<close> is the end of the match, so a match of no code unit would be found again
  for ever: the loop is partial, \<open>None\<close> when it does not end.
\<close>

partial_function (option) exec_loop ::
  "regex \<Rightarrow> (match \<Rightarrow> 'a) \<Rightarrow> jsstring \<Rightarrow> nat \<Rightarrow> 'a list \<Rightarrow> 'a list option" where
  "exec_loop re mk text lastIndex references =
     (case exec re text lastIndex of
        None \<Rightarrow> Some references
      | Some mt \<Rightarrow>
          exec_loop re mk text (index mt + length (matched mt)) (references @ [mk mt]))"

declare exec_loop.simps [code]

text \<open>
  \<open>s.split(re)\<close> for a separator without capturing groups. \<open>cur\<close> is the piece since the
  last separator and the third argument the text from the position tried. A separator
  that consumes nothing splits only after a code unit has been taken.
\<close>

fun split_loop :: "regex \<Rightarrow> jsstring \<Rightarrow> jsstring \<Rightarrow> jsstring list" where
  "split_loop re cur [] = [cur]"
| "split_loop re cur (x # xs) =
     (case matches (ignoreCase re) (pattern re) (x # xs) [] of
        [] \<Rightarrow> split_loop re (cur @ [x]) xs
      | (k, c) # _ \<Rightarrow>
          if k = 0 then (if cur = [] then split_loop re [x] xs else cur # split_loop re [x] xs)
          else cur # split_loop re [] (drop (k - 1) xs))"

definition split :: "regex \<Rightarrow> jsstring \<Rightarrow> jsstring list" where
  "split re s =
     (if s = []
      then (if matches (ignoreCase re) (pattern re) [] [] = [] then [[]] else [])
      else split_loop re [] s)"

definition trim :: "jsstring \<Rightarrow> jsstring" where
  "trim s = rev (dropWhile is_space (rev (dropWhile is_space s)))"

text \<open>\<open>s.slice(start, end)\<close>: a negative index counts from the end, both are clamped.\<close>

definition slice :: "jsstring \<Rightarrow> int \<Rightarrow> int \<Rightarrow> jsstring" where
  "slice s start end' =
     (let len = int (length s);
          from = (if start < 0 then max (len + start) 0 else min start len);
          to = (if end' < 0 then max (len + end') 0 else min end' len)
      in take (nat (to - from)) (drop (nat from) s))"

text \<open>\<open>parts.join(sep)\<close>.\<close>

fun join :: "jsstring \<Rightarrow> jsstring list \<Rightarrow> jsstring" where
  "join sep [] = []"
| "join sep [x] = x"
| "join sep (x # y # ys) = x @ sep @ join sep (y # ys)"

section \<open>LegalKnowledgeVectorizer\<close>

subsection \<open>splitWithOverlap\<close>

text \<open>
  \<open>chunkSize\<close> and \<open>overlap\<close> are integers. The loop ends when \<open>start\<close> reaches the length
  of the text; \<open>None\<close> stands for a loop that never ends.
\<close>

partial_function (option) splitWithOverlap_loop ::
  "jsstring \<Rightarrow> int \<Rightarrow> int \<Rightarrow> int \<Rightarrow> jsstring list \<Rightarrow> jsstring list option" where
  "splitWithOverlap_loop text chunkSize overlap start chunks =
     (if start < int (length text)
      then let end' = min (start + chunkSize) (int (length text))
           in splitWithOverlap_loop text chunkSize overlap (start + (chunkSize - overlap))
                (chunks @ [slice text start end'])
      else Some chunks)"

declare splitWithOverlap_loop.simps [code]

definition splitWithOverlap :: "jsstring \<Rightarrow> int \<Rightarrow> int \<Rightarrow> jsstring list option" where
  "splitWithOverlap text chunkSize overlap = splitWithOverlap_loop text chunkSize overlap 0 []"

subsection \<open>splitByLegalSections\<close>

definition section_patterns :: "regex list" where
  "section_patterns =
     [\<lparr> pattern = Seq (Lit [10]) (Look (seq [Lit (str ''Article''), Plus Space, Plus Digit])),
        ignoreCase = True \<rparr>,
      \<lparr> pattern = Seq (Lit [10]) (Look (seq [Lit (str ''Section''), Plus Space, Plus Digit])),
        ignoreCase = True \<rparr>,
      \<lparr> pattern = Seq (Lit [10]) (Look (seq [Lit [3618, 3591], Star Space, Plus Digit])),
        ignoreCase = True \<rparr>,
      \<lparr> pattern = Seq (Lit [10])
                      (Look (seq [Plus Digit, Lit (str ''.''), Plus Space, Atom (Range 65 90)])),
        ignoreCase = False \<rparr>]"

definition splitByLegalSections :: "jsstring \<Rightarrow> jsstring list" where
  "splitByLegalSections content =
     foldl (\<lambda>sections pattern.
              concat (map (\<lambda>section.
                             filter (\<lambda>s. length (trim s) > 0) (split pattern section))
                          sections))
           [content] section_patterns"

subsection \<open>chunkDocument\<close>

record document =
  doc_id :: jsstring
  doc_name :: jsstring
  content :: jsstring

record options =
  chunkSize :: int
  overlap :: int
  preserveLegalCitations :: bool

text \<open>The loop over the sections, \<open>chunks\<close> being the array pushed to.\<close>

fun chunk_sections :: "int \<Rightarrow> int \<Rightarrow> jsstring list \<Rightarrow> jsstring list \<Rightarrow> jsstring list option" where
  "chunk_sections cs ov [] chunks = Some chunks"
| "chunk_sections cs ov (section # sections) chunks =
     (if int (length section) \<le> cs
      then chunk_sections cs ov sections (chunks @ [section])
      else (case splitWithOverlap section cs ov of
              None \<Rightarrow> None
            | Some subChunks \<Rightarrow> chunk_sections cs ov sections (chunks @ subChunks)))"

definition chunkDocument :: "'a document_scheme \<Rightarrow> options \<Rightarrow> jsstring list option" where
  "chunkDocument doc opts =
     (if preserveLegalCitations opts
      then chunk_sections (chunkSize opts) (overlap opts) (splitByLegalSections (content doc)) []
      else (case splitWithOverlap (content doc) (chunkSize opts) (overlap opts) of
              None \<Rightarrow> None
            | Some subChunks \<Rightarrow> Some ([] @ subChunks)))"

subsection \<open>extractLegalReferences\<close>

text \<open>
  A reference is an object tagged by its \<open>type\<close>; the fields are, in the order of the
  source, \<open>article, paragraph, subparagraph, text\<close> for \<open>GDPR\<close>, \<open>article, text\<close> for
  \<open>AI_Act\<close>, and \<open>number, year, text\<close> for the other two. A capture is \<open>None\<close> when it is
  \<open>undefined\<close> or \<open>null\<close>.
\<close>

datatype reference =
    GDPR "jsstring option" "jsstring option" "jsstring option" jsstring
  | AI_Act "jsstring option" jsstring
  | Italian_Decree "jsstring option" "jsstring option" jsstring
  | Garante_Decision "jsstring option" "jsstring option" jsstring

text \<open>\<open>x || null\<close> on a capture: \<open>undefined\<close> and the empty string both give \<open>null\<close>.\<close>

definition or_null :: "jsstring option \<Rightarrow> jsstring option" where
  "or_null x = (case x of None \<Rightarrow> None | Some s \<Rightarrow> if s = [] then None else Some s)"

definition gdprPattern :: regex where
  "gdprPattern =
     \<lparr> pattern = seq
         [Lit (str ''Article''), Plus Space, Group 1 (Plus Digit),
          Opt (seq [Lit (str ''(''), Group 2 (Plus Digit), Lit (str '')'')]),
          Opt (seq [Lit (str ''(''), Group 3 (Atom (Range 97 122)), Lit (str '')'')]),
          Plus Space, Opt (seq [Lit (str ''of''), Plus Space]),
          Opt (seq [Lit (str ''the''), Plus Space]), Lit (str ''GDPR'')],
       ignoreCase = True \<rparr>"

definition aiActPattern :: regex where
  "aiActPattern =
     \<lparr> pattern = seq
         [Lit (str ''Article''), Plus Space, Group 1 (Plus Digit), Plus Space,
          Opt (seq [Lit (str ''of''), Plus Space]), Opt (seq [Lit (str ''the''), Plus Space]),
          Lit (str ''AI''), Plus Space, Lit (str ''Act'')],
       ignoreCase = True \<rparr>"

definition dlgsPattern :: regex where
  "dlgsPattern =
     \<lparr> pattern = seq
         [Lit (str ''D''), Opt (Lit (str ''.'')), Star Space, Lit (str ''Lgs''),
          Opt (Lit (str ''.'')), Plus Space,
          Opt (seq [Lit (str ''n''), Opt (Lit (str ''.'')), Star Space]),
          Group 1 (Plus Digit), Lit (str ''/''), Group 2 (Times 4 Digit)],
       ignoreCase = True \<rparr>"

definition garantePattern :: regex where
  "garantePattern =
     \<lparr> pattern = seq
         [Alt (Lit (str ''Provvedimento'')) (Lit (str ''Decisione'')), Plus Space,
          Opt (seq [Lit (str ''del''), Plus Space]), Lit (str ''Garante''), Plus Space,
          Opt (seq [Lit (str ''n''), Opt (Lit (str ''.'')), Star Space]),
          Group 1 (Plus Digit), Opt (seq [Lit (str ''/''), Group 2 (Times 4 Digit)])],
       ignoreCase = True \<rparr>"

definition gdpr_reference :: "match \<Rightarrow> reference" where
  "gdpr_reference mt = GDPR (group mt 1) (or_null (group mt 2)) (or_null (group mt 3)) (matched mt)"

definition aiAct_reference :: "match \<Rightarrow> reference" where
  "aiAct_reference mt = AI_Act (group mt 1) (matched mt)"

definition dlgs_reference :: "match \<Rightarrow> reference" where
  "dlgs_reference mt = Italian_Decree (group mt 1) (group mt 2) (matched mt)"

definition garante_reference :: "match \<Rightarrow> reference" where
  "garante_reference mt = Garante_Decision (group mt 1) (or_null (group mt 2)) (matched mt)"

definition extractLegalReferences :: "jsstring \<Rightarrow> reference list option" where
  "extractLegalReferences txt =
     do {
       references \<leftarrow> exec_loop gdprPattern gdpr_reference txt 0 [];
       references \<leftarrow> exec_loop aiActPattern aiAct_reference txt 0 references;
       references \<leftarrow> exec_loop dlgsPattern dlgs_reference txt 0 references;
       references \<leftarrow> exec_loop garantePattern garante_reference txt 0 references;
       Some references
     }"

subsection \<open>All matches of a pattern, as the specification words them\<close>

text \<open>
  The pattern occurs at position \<open>j\<close> of the text when the matcher finds a match starting
  there; \<open>reports\<close> says that a match record is the match the matcher finds at its index.
  A list holds all matches of the pattern when every record is such a match, no match
  starts before its predecessor ends, and every position at which the pattern occurs is
  the start of a match of the list or lies inside one: nothing is left out and nothing is
  merged.
\<close>

definition occurs_at :: "regex \<Rightarrow> jsstring \<Rightarrow> nat \<Rightarrow> bool" where
  "occurs_at re tx j \<longleftrightarrow>
     j \<le> length tx \<and> matches (ignoreCase re) (pattern re) (drop j tx) [] \<noteq> []"

definition reports :: "regex \<Rightarrow> jsstring \<Rightarrow> match \<Rightarrow> bool" where
  "reports re tx m \<longleftrightarrow>
     index m \<le> length tx
     \<and> (case matches (ignoreCase re) (pattern re) (drop (index m) tx) [] of
          [] \<Rightarrow> False
        | (k, c) # _ \<Rightarrow> matched m = take k (drop (index m) tx) \<and> groups m = c)"

definition spec_all_matches :: "regex \<Rightarrow> jsstring \<Rightarrow> match list \<Rightarrow> bool" where
  "spec_all_matches re tx ms \<longleftrightarrow>
     list_all (reports re tx) ms
     \<and> sorted_wrt (\<lambda>a b. index a + length (matched a) \<le> index b) ms
     \<and> list_all (\<lambda>j. occurs_at re tx j \<longrightarrow>
                       list_ex (\<lambda>m. index m \<le> j \<and> j < index m + length (matched m)) ms)
                 [0 ..< Suc (length tx)]"

subsection \<open>The chunks as the specification re-assembles them\<close>

text \<open>
  The chunks of one window put together again: the first chunk whole, every later chunk
  without its leading \<open>overlap\<close> code units.
\<close>

fun spec_reassemble :: "int \<Rightarrow> jsstring list \<Rightarrow> jsstring" where
  "spec_reassemble ov [] = []"
| "spec_reassemble ov (c # cs) = c @ concat (map (drop (nat ov)) cs)"

subsection \<open>synthesizeResponse, calculateConfidence\<close>

text \<open>
  A hit of the similarity search. \<open>score\<close> is the distance the vector store reports, \<open>None\<close>
  when it reports none (\<open>null\<close>); distances are taken as real numbers, the rounding of
  doubles is left out. \<open>legalReferences\<close> is \<open>None\<close> when the metadata has no such property.
\<close>

record hit_metadata =
  source :: jsstring
  docId :: jsstring
  legalReferences :: "reference list option"

record search_result =
  result_id :: jsstring
  content :: jsstring
  metadata :: hit_metadata
  score :: "real option"

record source_entry =
  documentId :: jsstring
  documentName :: jsstring
  relevance :: "real option"

record knowledge_answer =
  requirement :: jsstring
  synthesizedContent :: jsstring
  sources :: "source_entry list"
  legalReferences :: "reference list"
  confidence :: real

text \<open>
  Every evaluation of an object literal creates an object of its own. \<open>new_objects\<close> pairs
  the objects that an array \<open>map\<close> creates with their addresses, a fresh one per element.
\<close>

definition new_objects :: "'a list \<Rightarrow> (nat \<times> 'a) list" where
  "new_objects xs = zip [0 ..< length xs] xs"

text \<open>
  \<open>[...new Set(objects)]\<close>: a set keeps its elements in insertion order and leaves out an
  element that is already in it; two objects are the same element only when they are the
  same object, whatever their fields hold.
\<close>

definition Set_add :: "(nat \<times> 'a) list \<Rightarrow> nat \<times> 'a \<Rightarrow> (nat \<times> 'a) list" where
  "Set_add elems x = (if fst x \<in> fst ` set elems then elems else elems @ [x])"

definition new_Set :: "(nat \<times> 'a) list \<Rightarrow> (nat \<times> 'a) list" where
  "new_Set xs = foldl Set_add [] xs"

definition combineContents :: "jsstring list \<Rightarrow> jsstring \<Rightarrow> jsstring" where
  "combineContents contents requirementType = join ([10, 10] @ str ''---'' @ [10, 10]) contents"

text \<open>\<open>r.score || 0\<close>: the distance of a hit, 0 when the store reports none.\<close>

definition score_or_zero :: "'a search_result_scheme \<Rightarrow> real" where
  "score_or_zero r = (case score r of None \<Rightarrow> 0 | Some d \<Rightarrow> d)"

definition calculateConfidence :: "'a search_result_scheme list \<Rightarrow> real" where
  "calculateConfidence results =
     (if length results = 0 then 0
      else let avgDistance =
                 foldl (\<lambda>sum r. sum + score_or_zero r) 0 results / real (length results)
           in max 0 (1 - avgDistance))"

text \<open>The mean of the hit distances, as the specification words the confidence.\<close>

definition spec_meanDistance :: "'a search_result_scheme list \<Rightarrow> real" where
  "spec_meanDistance results = (\<Sum>r\<leftarrow>results. score_or_zero r) / real (length results)"

definition synthesizeResponse :: "'a search_result_scheme list \<Rightarrow> jsstring \<Rightarrow> knowledge_answer" where
  "synthesizeResponse results requirementType =
     \<lparr> requirement = requirementType,
       synthesizedContent = combineContents (map content results) requirementType,
       sources = map snd (new_Set (new_objects
                   (map (\<lambda>r. \<lparr> documentId = docId (metadata r),
                                documentName = source (metadata r),
                                relevance = score r \<rparr>) results))),
       legalReferences =
         foldl (\<lambda>refs r. case hit_metadata.legalReferences (metadata r) of
                             None \<Rightarrow> refs
                           | Some rs \<Rightarrow> refs @ rs) [] results,
       confidence = calculateConfidence results \<rparr>"

section \<open>ViolationDetectionEngine\<close>

text \<open>
  The fields of a violation that the scorer reads. \<open>affectsMinors\<close> is \<open>None\<close> where the
  detector leaves the property out. The detector's rules add their own fields.
\<close>

record violation =
  type :: jsstring
  severity :: jsstring
  affectsMinors :: "bool option"

record cookie_violation = violation +
  description :: jsstring
  evidence :: "jsstring list"

record cookie =
  name :: jsstring
  "value" :: jsstring

subsection \<open>checkCookieCompliance, isEssentialCookie\<close>

definition essentialPatterns :: "jsstring list" where
  "essentialPatterns = [str ''session'', str ''csrf'', str ''auth'', str ''security'']"

definition isEssentialCookie :: "jsstring \<Rightarrow> bool" where
  "isEssentialCookie nm =
     list_ex (\<lambda>pattern. js_includes (toLowerCase nm) pattern) essentialPatterns"

definition checkCookieCompliance :: "'a cookie_scheme list \<Rightarrow> cookie_violation list" where
  "checkCookieCompliance cookies =
     (let nonEssentialCookies = filter (\<lambda>cookie. \<not> isEssentialCookie (name cookie)) cookies
      in if length nonEssentialCookies > 0
         then [\<lparr> type = str ''cookie_consent_violation'',
                 severity = str ''medium'',
                 affectsMinors = None,
                 description = toString_nat (length nonEssentialCookies)
                    @ str '' non-essential cookies set without explicit consent'',
                 evidence = map name nonEssentialCookies \<rparr>]
         else [])"

subsection \<open>estimateFineRange\<close>

record fine_range =
  min_fine :: jsnum
  max_fine :: jsnum

definition baseFines :: "(jsstring \<times> int \<times> int) list" where
  "baseFines =
     [(str ''critical'', (100000, 500000)),
      (str ''high'', (50000, 200000)),
      (str ''medium'', (10000, 50000))]"

text \<open>
  \<open>range = baseFines[v.severity] || baseFines.medium\<close>, then \<open>range.min\<close> and \<open>range.max\<close>.
  The three bands are objects, hence truthy. An inherited property is truthy as well, so the
  default does not apply to it; it has no \<open>min\<close> or \<open>max\<close>, both read \<open>undefined\<close>, and adding
  \<open>undefined\<close> to a number gives \<open>NaN\<close>.
\<close>

definition fine_band :: "jsstring \<Rightarrow> jsnum \<times> jsnum" where
  "fine_band sev =
     (case get_prop baseFines sev of
        Own (lo, hi) \<Rightarrow> (Num lo, Num hi)
      | Inherited \<Rightarrow> (NaN, NaN)
      | Undefined \<Rightarrow> (Num 10000, Num 50000))"

definition estimateFineRange :: "'a violation_scheme list \<Rightarrow> fine_range" where
  "estimateFineRange violations =
     (let (minTotal, maxTotal) =
        foldl (\<lambda>(minTotal, maxTotal) v.
                 let range = fine_band (severity v)
                 in (num_add minTotal (fst range), num_add maxTotal (snd range)))
              (Num 0, Num 0) violations
      in \<lparr> min_fine = minTotal, max_fine = maxTotal \<rparr>)"

subsection \<open>calculateComplianceScore\<close>

definition penalties :: "(jsstring \<times> int) list" where
  "penalties = [(str ''critical'', 25), (str ''high'', 15), (str ''medium'', 5)]"

text \<open>
  \<open>penalties[v.severity] || 5\<close>: a number of the table (none is zero, so all are truthy), the
  default for a key that reads \<open>undefined\<close>, and for an inherited property the function
  itself, which turns into \<open>NaN\<close> when it is subtracted.
\<close>

definition penalty_or_default :: "jsstring \<Rightarrow> jsnum" where
  "penalty_or_default sev =
     (case get_prop penalties sev of
        Own p \<Rightarrow> if p = 0 then Num 5 else Num p
      | Inherited \<Rightarrow> NaN
      | Undefined \<Rightarrow> Num 5)"

definition calculateComplianceScore :: "'a violation_scheme list \<Rightarrow> jsnum" where
  "calculateComplianceScore violations =
     (let baseScore = Num 100;
          score = foldl (\<lambda>score v. num_sub score (penalty_or_default (severity v)))
                        baseScore violations
      in Math_max (Num 0) score)"


subsection \<open>generateSummary\<close>

record summary =
  totalViolations :: nat
  criticalViolations :: nat
  highViolations :: nat
  mediumViolations :: nat
  affectsMinors :: bool
  estimatedFineRange :: fine_range
  complianceScore :: jsnum


subsection \<open>The scorer as the specification words it\<close>

text \<open>
  The penalty and the fine band of a severity as the specification's tables give them, on
  the three severities of the data model.
\<close>

definition valid_severities :: "jsstring set" where
  "valid_severities = {str ''critical'', str ''high'', str ''medium''}"

definition spec_penalty :: "jsstring \<Rightarrow> int" where
  "spec_penalty sev =
     (if sev = str ''critical'' then 25 else if sev = str ''high'' then 15 else 5)"

definition spec_band_min :: "jsstring \<Rightarrow> int" where
  "spec_band_min sev =
     (if sev = str ''critical'' then 100000 else if sev = str ''high'' then 50000 else 10000)"

definition spec_band_max :: "jsstring \<Rightarrow> int" where
  "spec_band_max sev =
     (if sev = str ''critical'' then 500000 else if sev = str ''high'' then 200000 else 50000)"

section \<open>Concrete inputs\<close>

text \<open>A cache whose read is rejected, in front of a retrieval path that would answer.\<close>

definition cache_read_down :: "(unit, unit, jsstring) services" where
  "cache_read_down =
     \<lparr> redis_get = (\<lambda>r key. Inl (Error (str ''ECONNREFUSED''))),
       redis_setEx = (\<lambda>r key ttl v. Inr r),
       queryLegalRequirement = (\<lambda>requirementType context. Inr (str ''answer'')),
       JSON_stringify_context = (\<lambda>context. str ''{}''),
       JSON_stringify = (\<lambda>a. a),
       JSON_parse = (\<lambda>s. Inr s) \<rparr>"

text \<open>A cache that misses and whose write is rejected.\<close>

definition cache_write_down :: "(unit, unit, jsstring) services" where
  "cache_write_down =
     \<lparr> redis_get = (\<lambda>r key. Inr None),
       redis_setEx = (\<lambda>r key ttl v. Inl (Error (str ''READONLY''))),
       queryLegalRequirement = (\<lambda>requirementType context. Inr (str ''answer'')),
       JSON_stringify_context = (\<lambda>context. str ''{}''),
       JSON_stringify = (\<lambda>a. a),
       JSON_parse = (\<lambda>s. Inr s) \<rparr>"

text \<open>Two hits that are chunks of the same document.\<close>

definition same_document_hits :: "search_result list" where
  "same_document_hits =
     [\<lparr> result_id = str ''d1_chunk_0'', content = str ''a'',
        metadata = \<lparr> source = str ''GDPR'', docId = str ''d1'', legalReferences = None \<rparr>,
        score = Some (1 / 10) \<rparr>,
      \<lparr> result_id = str ''d1_chunk_1'', content = str ''b'',
        metadata = \<lparr> source = str ''GDPR'', docId = str ''d1'', legalReferences = None \<rparr>,
        score = Some (2 / 10) \<rparr>]"

section \<open>Properties of getLegalRequirement\<close>

text \<open>
  C1, as the specification states it: a failed cache read is treated as a miss and a failed
  cache write is swallowed, so that the retrieved answer is returned in both cases. The
  code does neither: with a cache whose read is rejected, and with a cache whose write is
  rejected after a miss, the retrieval path would answer, and \<open>getLegalRequirement\<close>
  rejects with the cache's error.
\<close>

theorem getLegalRequirement_cache_failure_counterexample:
  "queryLegalRequirement cache_read_down (str ''violation_severity'') () = Inr (str ''answer'')
   \<and> result (getLegalRequirement cache_read_down () (str ''violation_severity'') ())
       = Inl (Error (str ''ECONNREFUSED''))
   \<and> redis_get cache_write_down () (cacheKey cache_write_down (str ''violation_severity'') ())
       = Inr None
   \<and> queryLegalRequirement cache_write_down (str ''violation_severity'') () = Inr (str ''answer'')
   \<and> result (getLegalRequirement cache_write_down () (str ''violation_severity'') ())
       = Inl (Error (str ''READONLY''))"
  by (simp add: getLegalRequirement_def cache_read_down_def cache_write_down_def rethrow_def)

text \<open>
  C1, amended. \<open>getLegalRequirement\<close> propagates every error, those of the cache included;
  the \<open>catch\<close> block logs the error and throws it again. Path by path: when the cache read
  is rejected, the call rejects with that error, one failure line is logged and the
  retrieval is not consulted. When the read returns a non-empty string, the hit is logged
  and the parsed string is returned, or, when parsing throws, the call rejects after the
  hit line and a failure line. When the read misses and the retrieval fails, the call
  rejects with the retrieval's error. When the read misses, the retrieval answers and the
  write is rejected, the call rejects with the write's error, a failure line is logged and
  the answer is not returned. Only when the read misses and neither the retrieval nor the
  write fails is the retrieved answer returned, nothing is logged, and the cache is the
  one the write leaves.
\<close>

theorem getLegalRequirement_rethrows:
  "(redis_get sv r (cacheKey sv requirementType context) = Inl e
      \<longrightarrow> getLegalRequirement sv r requirementType context
            = \<lparr> logged = [Failed (str ''Failed to get legal requirement '' @ requirementType
                                      @ str '':'') e],
                cache = r, result = Inl e \<rparr>)
   \<and> (redis_get sv r (cacheKey sv requirementType context) = Inr (Some s) \<and> s \<noteq> []
        \<and> JSON_parse sv s = Inr answer
      \<longrightarrow> getLegalRequirement sv r requirementType context
            = \<lparr> logged = [Info (str ''Cache hit for '' @ requirementType)],
                cache = r, result = Inr answer \<rparr>)
   \<and> (redis_get sv r (cacheKey sv requirementType context) = Inr (Some s) \<and> s \<noteq> []
        \<and> JSON_parse sv s = Inl e
      \<longrightarrow> getLegalRequirement sv r requirementType context
            = \<lparr> logged = [Info (str ''Cache hit for '' @ requirementType),
                          Failed (str ''Failed to get legal requirement '' @ requirementType
                                      @ str '':'') e],
                cache = r, result = Inl e \<rparr>)
   \<and> (redis_get sv r (cacheKey sv requirementType context) = Inr cached
        \<and> (cached = None \<or> cached = Some [])
        \<and> queryLegalRequirement sv requirementType context = Inl e
      \<longrightarrow> getLegalRequirement sv r requirementType context
            = \<lparr> logged = [Failed (str ''Failed to get legal requirement '' @ requirementType
                                      @ str '':'') e],
                cache = r, result = Inl e \<rparr>)
   \<and> (redis_get sv r (cacheKey sv requirementType context) = Inr cached
        \<and> (cached = None \<or> cached = Some [])
        \<and> queryLegalRequirement sv requirementType context = Inr answer
        \<and> redis_setEx sv r (cacheKey sv requirementType context) 86400 (JSON_stringify sv answer)
             = Inl e
      \<longrightarrow> getLegalRequirement sv r requirementType context
            = \<lparr> logged = [Failed (str ''Failed to get legal requirement '' @ requirementType
                                      @ str '':'') e],
                cache = r, result = Inl e \<rparr>)
   \<and> (redis_get sv r (cacheKey sv requirementType context) = Inr cached
        \<and> (cached = None \<or> cached = Some [])
        \<and> queryLegalRequirement sv requirementType context = Inr answer
        \<and> redis_setEx sv r (cacheKey sv requirementType context) 86400 (JSON_stringify sv answer)
             = Inr r'
      \<longrightarrow> getLegalRequirement sv r requirementType context
            = \<lparr> logged = [], cache = r', result = Inr answer \<rparr>)"
  by (auto simp: getLegalRequirement_def rethrow_def Let_def)

theorem getLegalRequirement_rethrows_witness:
  "redis_get cache_read_down () (cacheKey cache_read_down (str ''violation_severity'') ())
     = Inl (Error (str ''ECONNREFUSED''))
   \<and> result (getLegalRequirement cache_read_down () (str ''violation_severity'') ())
       = Inl (Error (str ''ECONNREFUSED''))
   \<and> redis_setEx cache_write_down ()
        (cacheKey cache_write_down (str ''violation_severity'') ()) 86400
        (JSON_stringify cache_write_down (str ''answer'')) = Inl (Error (str ''READONLY''))
   \<and> result (getLegalRequirement cache_write_down () (str ''violation_severity'') ())
       = Inl (Error (str ''READONLY''))"
proof -
  have r: "redis_get cache_read_down () (cacheKey cache_read_down (str ''violation_severity'') ())
     = Inl (Error (str ''ECONNREFUSED''))"
    by (simp add: cache_read_down_def)
  have g: "redis_get cache_write_down () (cacheKey cache_write_down (str ''violation_severity'') ())
     = Inr None"
    by (simp add: cache_write_down_def)
  have q: "queryLegalRequirement cache_write_down (str ''violation_severity'') () = Inr (str ''answer'')"
    by (simp add: cache_write_down_def)
  have w: "redis_setEx cache_write_down ()
        (cacheKey cache_write_down (str ''violation_severity'') ()) 86400
        (JSON_stringify cache_write_down (str ''answer'')) = Inl (Error (str ''READONLY''))"
    by (simp add: cache_write_down_def)
  show ?thesis
    using getLegalRequirement_rethrows
            [of cache_read_down "()" "str ''violation_severity''" "()" "Error (str ''ECONNREFUSED'')"]
          getLegalRequirement_rethrows
            [of cache_write_down "()" "str ''violation_severity''" "()" "Error (str ''READONLY'')"
                _ "str ''answer''" None]
          r g q w
    by simp
qed

section \<open>Properties of calculateConfidence and synthesizeResponse\<close>

lemma foldl_plus_sum_list:
  "foldl (\<lambda>sum r. sum + f r) (a::real) xs = a + (\<Sum>r\<leftarrow>xs. f r)"
  by (induction xs arbitrary: a) simp_all

lemma sum_score_nonneg:
  "\<forall>r\<in>set results. \<forall>d. score r = Some d \<longrightarrow> 0 \<le> d \<Longrightarrow> 0 \<le> (\<Sum>r\<leftarrow>results. score_or_zero r)"
  by (induction results) (auto simp: score_or_zero_def split: option.splits)

text \<open>
  C6. When no hit has a negative distance, \<open>calculateConfidence\<close> is 0 on the empty list
  and \<open>max(0, 1 - meanDistance)\<close> otherwise, \<open>meanDistance\<close> being the arithmetic mean of the
  hit distances, and the value lies between 0 and 1.
\<close>

theorem calculateConfidence_range:
  assumes "\<forall>r\<in>set results. \<forall>d. score r = Some d \<longrightarrow> 0 \<le> d"
  shows "calculateConfidence results
           = (if results = [] then 0 else max 0 (1 - spec_meanDistance results))
       \<and> 0 \<le> calculateConfidence results \<and> calculateConfidence results \<le> 1"
proof -
  have eq: "calculateConfidence results
           = (if results = [] then 0 else max 0 (1 - spec_meanDistance results))"
    by (simp add: calculateConfidence_def spec_meanDistance_def foldl_plus_sum_list)
  have "0 \<le> spec_meanDistance results"
    using sum_score_nonneg [OF assms] by (simp add: spec_meanDistance_def)
  then show ?thesis
    unfolding eq by simp
qed

theorem calculateConfidence_range_witness:
  "calculateConfidence same_document_hits = 17 / 20
   \<and> calculateConfidence ([] :: search_result list) = 0"
  using calculateConfidence_range [of same_document_hits]
    calculateConfidence_range [of "[] :: search_result list"]
  by (simp add: same_document_hits_def spec_meanDistance_def score_or_zero_def)

text \<open>
  The objects \<open>map\<close> creates are pairwise different objects, so the set built from them
  holds every one of them: \<open>sources\<close> has one entry per hit.
\<close>

lemma foldl_Set_add_fresh:
  "distinct addrs \<Longrightarrow> set addrs \<inter> fst ` set elems = {} \<Longrightarrow>
   foldl Set_add elems (zip addrs xs) = elems @ zip addrs xs"
proof (induction addrs arbitrary: xs elems)
  case Nil
  then show ?case by simp
next
  case (Cons a addrs)
  show ?case
  proof (cases xs)
    case Nil
    then show ?thesis by simp
  next
    case (Cons x xs')
    have step: "Set_add elems (a, x) = elems @ [(a, x)]"
      using Cons.prems(2) by (auto simp: Set_add_def)
    have fresh: "set addrs \<inter> fst ` set (elems @ [(a, x)]) = {}"
      using Cons.prems by auto
    have "distinct addrs" using Cons.prems(1) by simp
    from Cons.IH [OF this fresh, of xs'] show ?thesis
      by (simp add: Cons step)
  qed
qed

lemma new_Set_new_objects: "new_Set (new_objects xs) = new_objects xs"
  using foldl_Set_add_fresh [of "[0 ..< length xs]" "[]" xs]
  by (simp add: new_Set_def new_objects_def)

lemma sources_all_hits:
  "sources (synthesizeResponse results requirementType)
     = map (\<lambda>r. \<lparr> documentId = docId (metadata r), documentName = source (metadata r),
                   relevance = score r \<rparr>) results"
  by (simp add: synthesizeResponse_def new_Set_new_objects) (simp add: new_objects_def)

text \<open>
  C5. \<open>sources\<close> is meant to hold one entry per document (the entries go through a
  \<open>Set\<close>), but for two hits that are chunks of the document \<open>d1\<close> it holds two entries
  with the document id \<open>d1\<close>.
\<close>

theorem synthesizeResponse_sources_same_document:
  "map documentId (sources (synthesizeResponse same_document_hits (str ''violation_severity'')))
     = [str ''d1'', str ''d1'']"
  by (simp add: sources_all_hits same_document_hits_def)

section \<open>Properties of splitWithOverlap and chunkDocument\<close>

subsection \<open>The sliding window\<close>

lemma splitWithOverlap_loop_terminates:
  assumes "ov < cs"
  shows "\<exists>more. splitWithOverlap_loop tx cs ov start chunks = Some (chunks @ more)"
proof (induction "nat (int (length tx) - start)" arbitrary: start chunks rule: less_induct)
  case less
  show ?case
  proof (cases "start < int (length tx)")
    case True
    have "nat (int (length tx) - (start + (cs - ov))) < nat (int (length tx) - start)"
      using True assms by linarith
    from less [OF this] obtain more where
      "splitWithOverlap_loop tx cs ov (start + (cs - ov))
         (chunks @ [slice tx start (min (start + cs) (int (length tx)))])
       = Some ((chunks @ [slice tx start (min (start + cs) (int (length tx)))]) @ more)"
      by blast
    then show ?thesis
      using True by (subst splitWithOverlap_loop.simps) (simp add: Let_def)
  next
    case False
    then show ?thesis
      by (subst splitWithOverlap_loop.simps) simp
  qed
qed

lemma splitWithOverlap_loop_diverges:
  assumes "splitWithOverlap_loop tx cs ov start chunks = Some res"
  shows "\<not> (cs \<le> ov \<and> start < int (length tx))"
proof (rule splitWithOverlap_loop.raw_induct
    [where P = "\<lambda>t c v s ch y. \<not> (c \<le> v \<and> s < int (length t))", OF _ assms])
  fix loop :: "jsstring \<Rightarrow> int \<Rightarrow> int \<Rightarrow> int \<Rightarrow> jsstring list \<Rightarrow> jsstring list option"
  fix t c v s ch y
  assume IH: "\<And>t c v s ch y. loop t c v s ch = Some y \<Longrightarrow> \<not> (c \<le> v \<and> s < int (length t))"
    and body: "(if s < int (length t)
                then let end' = min (s + c) (int (length t))
                     in loop t c v (s + (c - v)) (ch @ [slice t s end'])
                else Some ch) = Some y"
  show "\<not> (c \<le> v \<and> s < int (length t))"
  proof
    assume bad: "c \<le> v \<and> s < int (length t)"
    then have next_bad: "c \<le> v \<and> s + (c - v) < int (length t)"
      by linarith
    from body bad have
      "loop t c v (s + (c - v)) (ch @ [slice t s (min (s + c) (int (length t)))]) = Some y"
      by (simp add: Let_def)
    from IH [OF this] next_bad show False by blast
  qed
qed

lemma slice_inside:
  "0 \<le> start \<Longrightarrow> start \<le> int (length t) \<Longrightarrow> 0 \<le> e \<Longrightarrow> e \<le> int (length t) \<Longrightarrow>
   slice t start e = take (nat e - nat start) (drop (nat start) t)"
  by (simp add: slice_def Let_def min_def nat_diff_distrib')

lemma window_step:
  assumes "o' < c" "s < length t"
  shows "drop o' (take (min (s + c) (length t) - s) (drop s t)) @ drop (s + c) t = drop (s + o') t"
proof (cases "s + c \<le> length t")
  case True
  have "drop o' (take c (drop s t)) = take (c - o') (drop (s + o') t)"
    by (simp add: drop_take add.commute)
  moreover have "c - o' + (s + o') = s + c"
    using assms(1) by simp
  then have "drop (s + c) t = drop (c - o') (drop (s + o') t)"
    by (simp only: drop_drop)
  moreover have "min (s + c) (length t) - s = c"
    using True by simp
  ultimately show ?thesis
    by (simp only: append_take_drop_id)
next
  case False
  then have "min (s + c) (length t) = length t" "drop (s + c) t = []"
    by simp_all
  moreover have "drop o' (drop s t) = drop (s + o') t"
    by (simp add: add.commute)
  ultimately show ?thesis by simp
qed

lemma splitWithOverlap_loop_lossless:
  assumes "0 \<le> ov" "ov < cs" "0 \<le> start"
  shows "\<exists>more. splitWithOverlap_loop tx cs ov start chunks = Some (chunks @ more)
           \<and> concat (map (drop (nat ov)) more) = drop (nat (start + ov)) tx"
  using assms(3)
proof (induction "nat (int (length tx) - start)" arbitrary: start chunks rule: less_induct)
  case less
  show ?case
  proof (cases "start < int (length tx)")
    case True
    let ?e = "min (start + cs) (int (length tx))"
    let ?c = "slice tx start ?e"
    have m: "nat (int (length tx) - (start + (cs - ov))) < nat (int (length tx) - start)"
      using True assms by linarith
    have pos: "0 \<le> start + (cs - ov)"
      using less.prems assms by linarith
    from less.hyps [OF m pos] obtain more where
      run: "splitWithOverlap_loop tx cs ov (start + (cs - ov)) (chunks @ [?c])
              = Some ((chunks @ [?c]) @ more)"
      and rest: "concat (map (drop (nat ov)) more) = drop (nat (start + (cs - ov) + ov)) tx"
      by blast
    have c: "?c = take (min (nat start + nat cs) (length tx) - nat start) (drop (nat start) tx)"
    proof -
      have "?c = take (nat ?e - nat start) (drop (nat start) tx)"
        using less.prems True assms by (intro slice_inside) auto
      moreover have "nat ?e = min (nat start + nat cs) (length tx)"
        using less.prems assms by (simp add: min_def nat_add_distrib)
      ultimately show ?thesis by simp
    qed
    have "drop (nat ov) ?c @ drop (nat start + nat cs) tx = drop (nat start + nat ov) tx"
      unfolding c using assms True less.prems by (intro window_step) auto
    moreover have "nat (start + (cs - ov) + ov) = nat start + nat cs"
      using less.prems assms by (simp add: nat_add_distrib)
    moreover have "nat (start + ov) = nat start + nat ov"
      using less.prems assms by (simp add: nat_add_distrib)
    ultimately have "concat (map (drop (nat ov)) (?c # more)) = drop (nat (start + ov)) tx"
      using rest by simp
    moreover have "splitWithOverlap_loop tx cs ov start chunks = Some (chunks @ ?c # more)"
      using True run by (subst splitWithOverlap_loop.simps) (simp add: Let_def)
    ultimately show ?thesis by blast
  next
    case False
    then have "splitWithOverlap_loop tx cs ov start chunks = Some (chunks @ [])"
      by (subst splitWithOverlap_loop.simps) simp
    moreover have "drop (nat (start + ov)) tx = []"
      using False assms by simp
    ultimately show ?thesis by (intro exI [of _ "[]"]) simp
  qed
qed

lemma splitWithOverlap_lossless:
  assumes "0 \<le> ov" "ov < cs"
  shows "\<exists>w. splitWithOverlap tx cs ov = Some w \<and> spec_reassemble ov w = tx"
proof (cases "tx = []")
  case True
  then have "splitWithOverlap tx cs ov = Some []"
    unfolding splitWithOverlap_def by (subst splitWithOverlap_loop.simps) simp
  then show ?thesis using True by simp
next
  case False
  let ?c = "slice tx 0 (min (0 + cs) (int (length tx)))"
  have pos: "0 \<le> 0 + (cs - ov)" using assms by simp
  from splitWithOverlap_loop_lossless [OF assms pos, of tx "[] @ [?c]"] obtain more where
    run: "splitWithOverlap_loop tx cs ov (0 + (cs - ov)) ([] @ [?c]) = Some (([] @ [?c]) @ more)"
    and rest: "concat (map (drop (nat ov)) more) = drop (nat (0 + (cs - ov) + ov)) tx"
    by blast
  have c: "slice tx 0 (min cs (int (length tx))) = take (nat cs) tx"
    using assms by (simp add: slice_def Let_def min_def)
  have "splitWithOverlap tx cs ov = Some (?c # more)"
    unfolding splitWithOverlap_def using False run
    by (subst splitWithOverlap_loop.simps) (simp add: Let_def)
  moreover have "spec_reassemble ov (?c # more) = tx"
    using rest by (simp add: c)
  ultimately show ?thesis by blast
qed

lemma chunk_sections_windows:
  assumes "0 \<le> ov" "ov < cs"
  shows "\<exists>windows. chunk_sections cs ov sections chunks = Some (chunks @ concat windows)
           \<and> map (spec_reassemble ov) windows = sections"
proof (induction sections arbitrary: chunks)
  case Nil
  have "chunk_sections cs ov [] chunks = Some (chunks @ concat [])
          \<and> map (spec_reassemble ov) [] = []" by simp
  then show ?case by (rule exI)
next
  case (Cons s sections)
  show ?case
  proof (cases "int (length s) \<le> cs")
    case True
    from Cons [of "chunks @ [s]"] obtain windows where
      w: "chunk_sections cs ov sections (chunks @ [s]) = Some ((chunks @ [s]) @ concat windows)"
         "map (spec_reassemble ov) windows = sections"
      by blast
    have "chunk_sections cs ov (s # sections) chunks = Some (chunks @ concat ([s] # windows))
            \<and> map (spec_reassemble ov) ([s] # windows) = s # sections"
      using True w by simp
    then show ?thesis by (rule exI)
  next
    case False
    from splitWithOverlap_lossless [OF assms, of s] obtain sub where
      sub: "splitWithOverlap s cs ov = Some sub" "spec_reassemble ov sub = s"
      by blast
    from Cons [of "chunks @ sub"] obtain windows where
      w: "chunk_sections cs ov sections (chunks @ sub) = Some ((chunks @ sub) @ concat windows)"
         "map (spec_reassemble ov) windows = sections"
      by blast
    have "chunk_sections cs ov (s # sections) chunks = Some (chunks @ concat (sub # windows))
            \<and> map (spec_reassemble ov) (sub # windows) = s # sections"
      using False sub w by simp
    then show ?thesis by (rule exI)
  qed
qed

subsection \<open>The sections\<close>

lemma canonicalize_newline: "canonicalize ic x = canonicalize ic 10 \<longleftrightarrow> x = 10"
  by (auto simp: canonicalize_def)

lemma section_pattern_needs_newline:
  assumes "re \<in> set section_patterns" "x \<noteq> 10"
  shows "matches (ignoreCase re) (pattern re) (x # xs) [] = []"
  using assms by (auto simp: section_patterns_def canonicalize_newline)

lemma split_loop_no_newline:
  assumes "re \<in> set section_patterns"
  shows "10 \<notin> set s \<Longrightarrow> split_loop re cur s = [cur @ s]"
  by (induction s arbitrary: cur) (simp_all add: section_pattern_needs_newline [OF assms])

lemma split_no_newline:
  assumes "re \<in> set section_patterns" "10 \<notin> set s" "s \<noteq> []"
  shows "split re s = [s]"
  using assms by (simp add: split_def split_loop_no_newline)

lemma sections_fold_no_newline:
  assumes "10 \<notin> set c" "trim c \<noteq> []" "set ps \<subseteq> set section_patterns"
  shows "foldl (\<lambda>sections pattern.
              concat (map (\<lambda>section.
                             filter (\<lambda>s. length (trim s) > 0) (split pattern section))
                          sections))
           [c] ps = [c]"
  using assms(3)
proof (induction ps)
  case Nil
  then show ?case by simp
next
  case (Cons p ps)
  have "c \<noteq> []" using assms(2) by (auto simp: trim_def)
  then have "split p c = [c]"
    using Cons.prems assms(1) by (intro split_no_newline) auto
  then show ?case
    using Cons assms(2) by simp
qed

lemma splitByLegalSections_no_newline:
  "10 \<notin> set c \<Longrightarrow> trim c \<noteq> [] \<Longrightarrow> splitByLegalSections c = [c]"
  unfolding splitByLegalSections_def by (rule sections_fold_no_newline) simp_all

lemma sections_not_blank:
  "s \<in> set (splitByLegalSections c) \<Longrightarrow> trim s \<noteq> []"
  by (auto simp: splitByLegalSections_def section_patterns_def)

lemma sections_nonempty: "s \<in> set (splitByLegalSections c) \<Longrightarrow> s \<noteq> []"
  using sections_not_blank [of s c] by (auto simp: trim_def)

lemma subseq_split_loop: "subseq (concat (split_loop re cur s)) (cur @ s)"
proof (induction re cur s rule: split_loop.induct)
  case (1 re cur)
  then show ?case by simp
next
  case (2 re cur x xs)
  show ?case
  proof (cases "matches (ignoreCase re) (pattern re) (x # xs) []")
    case Nil
    then show ?thesis using 2(1) by simp
  next
    case (Cons kc rest)
    obtain k c where kc: "kc = (k, c)" by (cases kc)
    show ?thesis
    proof (cases "k = 0")
      case True
      show ?thesis
      proof (cases "cur = []")
        case e: True
        then show ?thesis using 2(2) [OF Cons kc [symmetric] True e] Cons kc True by simp
      next
        case ne: False
        have "subseq (concat (split_loop re [x] xs)) (x # xs)"
          using 2(3) [OF Cons kc [symmetric] True ne] by simp
        then have "subseq (cur @ concat (split_loop re [x] xs)) (cur @ x # xs)"
          by (intro list_emb_append_mono) simp_all
        then show ?thesis using Cons kc True ne by simp
      qed
    next
      case False
      have "subseq (concat (split_loop re [] (drop (k - 1) xs))) (drop (k - 1) xs)"
        using 2(4) [OF Cons kc [symmetric] False] by simp
      moreover have "subseq (drop (k - 1) xs) (x # xs)"
        using suffix_imp_subseq [OF suffix_drop, of "k - 1" xs] by (rule list_emb_Cons)
      ultimately have "subseq (concat (split_loop re [] (drop (k - 1) xs))) (x # xs)"
        using subseq_order.order_trans by blast
      then have "subseq (cur @ concat (split_loop re [] (drop (k - 1) xs))) (cur @ x # xs)"
        by (intro list_emb_append_mono) simp_all
      then show ?thesis using Cons kc False by simp
    qed
  qed
qed

lemma subseq_split: "subseq (concat (split re s)) s"
  using subseq_split_loop [of re "[]" s] by (simp add: split_def)

lemma subseq_concat_filter: "subseq (concat (filter P xs)) (concat xs)"
  by (induction xs) (auto intro: list_emb_append_mono list_emb_append2)

lemma subseq_concat_map:
  "(\<And>x. subseq (concat (f x)) x) \<Longrightarrow> subseq (concat (concat (map f xs))) (concat xs)"
  by (induction xs) (auto intro: list_emb_append_mono)

lemma subseq_sections_fold:
  "subseq (concat (foldl (\<lambda>sections pattern.
              concat (map (\<lambda>section.
                             filter (\<lambda>s. length (trim s) > 0) (split pattern section))
                          sections)) init ps)) (concat init)"
proof (induction ps arbitrary: init)
  case Nil
  then show ?case by simp
next
  case (Cons p ps)
  let ?step = "concat (map (\<lambda>section. filter (\<lambda>s. length (trim s) > 0) (split p section)) init)"
  have one: "subseq (concat (filter (\<lambda>s. length (trim s) > 0) (split p x))) x" for x
    using subseq_concat_filter [of "\<lambda>s. length (trim s) > 0" "split p x"] subseq_split [of p x]
      subseq_order.order_trans by blast
  have "subseq (concat ?step) (concat init)"
    by (rule subseq_concat_map) (rule one)
  moreover have "subseq (concat (foldl (\<lambda>sections pattern.
              concat (map (\<lambda>section.
                             filter (\<lambda>s. length (trim s) > 0) (split pattern section))
                          sections)) ?step ps)) (concat ?step)"
    by (rule Cons.IH)
  ultimately show ?case
    using subseq_order.order_trans by fastforce
qed

lemma subseq_sections: "subseq (concat (splitByLegalSections c)) c"
  using subseq_sections_fold [of "[c]" section_patterns] by (simp add: splitByLegalSections_def)

text \<open>
  Splitting at a section pattern removes one line feed at each cut and nothing else:
  the pieces, joined by line feeds, are the text that was split. Over the four passes the
  sections are the pieces of such a cutting of the document that are not whitespace only.
\<close>

lemma join_Cons: "ys \<noteq> [] \<Longrightarrow> join sep (x # ys) = x @ sep @ join sep ys"
  by (cases ys) simp_all

lemma join_append:
  "xs \<noteq> [] \<Longrightarrow> ys \<noteq> [] \<Longrightarrow> join sep (xs @ ys) = join sep xs @ sep @ join sep ys"
proof (induction xs)
  case Nil
  then show ?case by simp
next
  case (Cons x xs)
  show ?case
  proof (cases "xs = []")
    case True
    then show ?thesis using Cons.prems by (simp add: join_Cons)
  next
    case False
    then have "join sep (x # xs @ ys) = x @ sep @ join sep (xs @ ys)"
      by (intro join_Cons) simp
    then show ?thesis using Cons.IH [OF False Cons.prems(2)] False by (simp add: join_Cons)
  qed
qed

lemma join_concat:
  "\<forall>xs\<in>set xss. xs \<noteq> [] \<Longrightarrow> join sep (concat xss) = join sep (map (join sep) xss)"
proof (induction xss)
  case Nil
  then show ?case by simp
next
  case (Cons xs xss)
  show ?case
  proof (cases "xss = []")
    case True
    then show ?thesis by simp
  next
    case False
    have ne: "xs \<noteq> []" "concat xss \<noteq> []"
      using Cons.prems False by (auto simp: neq_Nil_conv)
    have "join sep (concat (xs # xss)) = join sep xs @ sep @ join sep (concat xss)"
      using join_append [OF ne] by simp
    moreover have "join sep (map (join sep) (xs # xss))
                     = join sep xs @ sep @ join sep (map (join sep) xss)"
      using False by (simp add: join_Cons)
    ultimately show ?thesis using Cons by simp
  qed
qed

lemma split_loop_nonempty: "split_loop re cur s \<noteq> []"
  by (induction s arbitrary: cur) (auto split: list.splits)

lemma section_match:
  assumes "re \<in> set section_patterns"
    and "matches (ignoreCase re) (pattern re) (x # xs) [] = (k, c) # rest"
  shows "k = 1 \<and> x = 10"
  using assms
  by (auto simp: section_patterns_def canonicalize_newline split: if_splits list.splits)

lemma join_split_loop:
  assumes "re \<in> set section_patterns"
  shows "join [10] (split_loop re cur s) = cur @ s"
proof (induction s arbitrary: cur)
  case Nil
  then show ?case by simp
next
  case (Cons x xs)
  show ?case
  proof (cases "matches (ignoreCase re) (pattern re) (x # xs) []")
    case Nil
    then show ?thesis using Cons [of "cur @ [x]"] by simp
  next
    case (Cons kc rest)
    obtain k c where kc: "kc = (k, c)" by (cases kc)
    from section_match [OF assms Cons [unfolded kc]] have k: "k = 1" "x = 10" by simp_all
    have "split_loop re cur (x # xs) = cur # split_loop re [] xs"
      using Cons kc k by simp
    then show ?thesis
      using Cons.IH [of "[]"] k split_loop_nonempty [of re "[]" xs] by (simp add: join_Cons)
  qed
qed

lemma section_pattern_empty:
  "re \<in> set section_patterns \<Longrightarrow> matches (ignoreCase re) (pattern re) [] [] = []"
  by (auto simp: section_patterns_def)

lemma join_split:
  assumes "re \<in> set section_patterns"
  shows "join [10] (split re s) = s" and "split re s \<noteq> []"
  using join_split_loop [OF assms, of "[]" s] split_loop_nonempty [of re "[]" s]
    section_pattern_empty [OF assms]
  by (auto simp: split_def)


lemma filter_pieces:
  "concat (map (\<lambda>section. filter P (f section)) (filter P pieces))
     = filter P (concat (map (\<lambda>q. if P q then f q else [q]) pieces))"
  by (induction pieces) simp_all

lemma step_pieces:
  assumes "re \<in> set section_patterns" and "join [10] pieces = t" and "pieces \<noteq> []"
  shows "\<exists>pieces'. join [10] pieces' = t \<and> pieces' \<noteq> []
           \<and> concat (map (\<lambda>section. filter (\<lambda>s. length (trim s) > 0) (split re section))
                          (filter (\<lambda>s. length (trim s) > 0) pieces))
               = filter (\<lambda>s. length (trim s) > 0) pieces'"
proof -
  let ?g = "\<lambda>q. if length (trim q) > 0 then split re q else [q]"
  let ?pieces = "concat (map ?g pieces)"
  have ne: "\<forall>xs\<in>set (map ?g pieces). xs \<noteq> []"
    using join_split(2) [OF assms(1)] join_split(2) [OF assms(1), symmetric] by auto
  have "map (join [10]) (map ?g pieces) = pieces"
    using join_split(1) [OF assms(1)] by (induction pieces) auto
  then have "join [10] ?pieces = t"
    using join_concat [OF ne, of "[10]"] assms(2) by simp
  moreover have "?pieces \<noteq> []"
    using assms(3) ne by (cases pieces) auto
  ultimately show ?thesis
    using filter_pieces [of "\<lambda>s. length (trim s) > 0" "split re" pieces] by blast
qed

lemma sections_fold_pieces:
  assumes "set ps \<subseteq> set section_patterns"
  shows "join [10] pieces = t \<Longrightarrow> pieces \<noteq> [] \<Longrightarrow>
         \<exists>pieces'. join [10] pieces' = t \<and> pieces' \<noteq> []
           \<and> foldl (\<lambda>sections pattern.
                      concat (map (\<lambda>section.
                                     filter (\<lambda>s. length (trim s) > 0) (split pattern section))
                                  sections))
                    (filter (\<lambda>s. length (trim s) > 0) pieces) ps
               = filter (\<lambda>s. length (trim s) > 0) pieces'"
  using assms
proof (induction ps arbitrary: pieces)
  case Nil
  then show ?case by auto
next
  case (Cons p ps)
  have p: "p \<in> set section_patterns" and ps: "set ps \<subseteq> set section_patterns"
    using Cons.prems(3) by auto
  from step_pieces [OF p Cons.prems(1,2)] obtain pieces1 where
    1: "join [10] pieces1 = t" "pieces1 \<noteq> []"
       "concat (map (\<lambda>section. filter (\<lambda>s. length (trim s) > 0) (split p section))
                          (filter (\<lambda>s. length (trim s) > 0) pieces))
               = filter (\<lambda>s. length (trim s) > 0) pieces1"
    by blast
  from Cons.IH [OF 1(1,2) ps] show ?case
    using 1(3) by simp
qed

lemma sections_pieces:
  "\<exists>pieces. join [10] pieces = c
     \<and> splitByLegalSections c = filter (\<lambda>s. length (trim s) > 0) pieces"
proof -
  obtain p ps where sp: "section_patterns = p # ps"
    by (simp add: section_patterns_def)
  have p: "p \<in> set section_patterns" and ps: "set ps \<subseteq> set section_patterns"
    unfolding sp by auto
  have first: "concat (map (\<lambda>section. filter (\<lambda>s. length (trim s) > 0) (split p section)) [c])
                 = filter (\<lambda>s. length (trim s) > 0) (split p c)"
    by simp
  from sections_fold_pieces [OF ps join_split(1) [OF p, of c] join_split(2) [OF p, of c]]
  obtain pieces where
    "join [10] pieces = c"
    "foldl (\<lambda>sections pattern.
                      concat (map (\<lambda>section.
                                     filter (\<lambda>s. length (trim s) > 0) (split pattern section))
                                  sections))
           (filter (\<lambda>s. length (trim s) > 0) (split p c)) ps
       = filter (\<lambda>s. length (trim s) > 0) pieces"
    by blast
  then show ?thesis
    unfolding splitByLegalSections_def sp using first by auto
qed

subsection \<open>Chunking a document\<close>

lemmas eval_defs = splitByLegalSections_def section_patterns_def split_def seq_def str_def
  canonicalize_def run_def is_space_def is_digit_def trim_def chunkDocument_def
  splitWithOverlap_def slice_def Let_def

lemma chunk_sections_short:
  "\<forall>s\<in>set sections. int (length s) \<le> cs \<Longrightarrow>
   chunk_sections cs ov sections chunks = Some (chunks @ sections)"
  by (induction sections arbitrary: chunks) simp_all

lemma splitWithOverlap_diverges:
  assumes "cs \<le> ov" "tx \<noteq> []"
  shows "splitWithOverlap tx cs ov = None"
proof (cases "splitWithOverlap tx cs ov")
  case None
  then show ?thesis .
next
  case (Some res)
  then have "\<not> (cs \<le> ov \<and> 0 < int (length tx))"
    unfolding splitWithOverlap_def by (rule splitWithOverlap_loop_diverges)
  then show ?thesis using assms by simp
qed

lemma chunk_sections_diverges:
  assumes "cs \<le> ov"
  shows "\<forall>s\<in>set sections. s \<noteq> [] \<Longrightarrow> \<exists>s\<in>set sections. cs < int (length s) \<Longrightarrow>
         chunk_sections cs ov sections chunks = None"
proof (induction sections arbitrary: chunks)
  case Nil
  then show ?case by simp
next
  case (Cons s sections)
  show ?case
  proof (cases "int (length s) \<le> cs")
    case True
    then have "\<exists>s\<in>set sections. cs < int (length s)"
      using Cons.prems(2) by auto
    then show ?thesis
      using True Cons.IH Cons.prems(1) by simp
  next
    case False
    have "splitWithOverlap s cs ov = None"
      using assms Cons.prems(1) by (intro splitWithOverlap_diverges) simp_all
    then show ?thesis using False by simp
  qed
qed

lemma drop_all_length: "length (concat (map (drop n) cs)) \<le> length (concat cs)"
  by (induction cs) auto

lemma reassemble_length: "length (spec_reassemble ov w) \<le> length (concat w)"
  using drop_all_length [of "nat ov" "tl w"] by (cases w) auto

lemma reassemble_all_length:
  "length (concat (map (spec_reassemble ov) ws)) \<le> length (concat (concat ws))"
proof (induction ws)
  case Nil
  then show ?case by simp
next
  case (Cons w ws)
  then show ?case using reassemble_length [of ov w] by simp
qed

text \<open>
  Re-assembling only removes code units: chunks that together are shorter than a text
  cannot be grouped into windows that re-assemble to it.
\<close>

lemma no_reassembly:
  assumes "length (concat chunks) < length tx"
  shows "\<not> (\<exists>windows. concat windows = chunks
              \<and> concat (map (spec_reassemble ov) windows) = tx)"
proof
  assume "\<exists>windows. concat windows = chunks \<and> concat (map (spec_reassemble ov) windows) = tx"
  then obtain windows where w: "concat windows = chunks"
    "concat (map (spec_reassemble ov) windows) = tx" by blast
  from reassemble_all_length [of ov windows] w assms show False by simp
qed

text \<open>
  C3, as the specification states it: a configuration with \<open>overlap \<ge> chunkSize\<close> is
  rejected with an error before any chunk is produced. The code has no such check. With
  \<open>chunkSize = 10\<close> and \<open>overlap = 20\<close> the document \<open>abc\<close> is chunked into \<open>[abc]\<close>; and
  where \<open>splitWithOverlap\<close> is entered with \<open>overlap \<ge> chunkSize\<close> on a non-empty text (here
  \<open>abc\<close> with \<open>chunkSize = overlap = 2\<close>) its loop never ends, so that nothing is signalled
  at all.
\<close>

theorem chunkDocument_no_validation_counterexample:
  "chunkDocument \<lparr> doc_id = str ''d1'', doc_name = str ''notes'', content = str ''abc'' \<rparr>
                 \<lparr> chunkSize = 10, overlap = 20, preserveLegalCitations = True \<rparr>
     = Some [str ''abc'']
   \<and> splitWithOverlap (str ''abc'') 2 2 = None"
proof -
  have "chunkDocument \<lparr> doc_id = str ''d1'', doc_name = str ''notes'', content = str ''abc'' \<rparr>
                 \<lparr> chunkSize = 10, overlap = 20, preserveLegalCitations = True \<rparr>
     = Some [str ''abc'']"
    by (simp add: eval_defs)
  moreover have "splitWithOverlap (str ''abc'') 2 2 = None"
    by (rule splitWithOverlap_diverges) (simp_all add: str_def)
  ultimately show ?thesis by simp
qed

text \<open>
  C3, amended. Chunking never validates the configuration and never signals an error.
  The loop of \<open>splitWithOverlap\<close> ends whenever \<open>overlap < chunkSize\<close>, and never ends when
  \<open>overlap \<ge> chunkSize\<close> and the text is not empty. With citation preservation,
  \<open>chunkDocument\<close> returns the sections themselves when none is longer than \<open>chunkSize\<close>,
  whatever the overlap; with \<open>overlap \<ge> chunkSize\<close> it does not return when a section is
  longer than \<open>chunkSize\<close>, nor, without citation preservation, when the document is not
  empty.
\<close>

theorem chunkDocument_no_validation:
  "(ov < cs \<longrightarrow> splitWithOverlap tx cs ov \<noteq> None)
   \<and> (cs \<le> ov \<and> tx \<noteq> [] \<longrightarrow> splitWithOverlap tx cs ov = None)
   \<and> (preserveLegalCitations opts
        \<and> (\<forall>s\<in>set (splitByLegalSections (document.content doc)). int (length s) \<le> chunkSize opts)
      \<longrightarrow> chunkDocument doc opts = Some (splitByLegalSections (document.content doc)))
   \<and> (preserveLegalCitations opts \<and> chunkSize opts \<le> overlap opts
        \<and> (\<exists>s\<in>set (splitByLegalSections (document.content doc)). chunkSize opts < int (length s))
      \<longrightarrow> chunkDocument doc opts = None)
   \<and> (\<not> preserveLegalCitations opts \<and> chunkSize opts \<le> overlap opts
        \<and> document.content doc \<noteq> []
      \<longrightarrow> chunkDocument doc opts = None)"
proof -
  have a: "ov < cs \<longrightarrow> splitWithOverlap tx cs ov \<noteq> None"
    using splitWithOverlap_loop_terminates [of ov cs tx 0 "[]"]
    by (auto simp: splitWithOverlap_def)
  have b: "cs \<le> ov \<and> tx \<noteq> [] \<longrightarrow> splitWithOverlap tx cs ov = None"
    by (simp add: splitWithOverlap_diverges)
  have c: "preserveLegalCitations opts
        \<and> (\<forall>s\<in>set (splitByLegalSections (document.content doc)). int (length s) \<le> chunkSize opts)
      \<longrightarrow> chunkDocument doc opts = Some (splitByLegalSections (document.content doc))"
    by (simp add: chunkDocument_def chunk_sections_short)
  have d: "preserveLegalCitations opts \<and> chunkSize opts \<le> overlap opts
        \<and> (\<exists>s\<in>set (splitByLegalSections (document.content doc)). chunkSize opts < int (length s))
      \<longrightarrow> chunkDocument doc opts = None"
    using chunk_sections_diverges [of "chunkSize opts" "overlap opts"
        "splitByLegalSections (document.content doc)" "[]"] sections_nonempty
    by (auto simp: chunkDocument_def)
  have e: "\<not> preserveLegalCitations opts \<and> chunkSize opts \<le> overlap opts
        \<and> document.content doc \<noteq> []
      \<longrightarrow> chunkDocument doc opts = None"
    by (simp add: chunkDocument_def splitWithOverlap_diverges)
  from a b c d e show ?thesis by blast
qed

theorem chunkDocument_no_validation_witness:
  "splitWithOverlap (str ''abc'') 2 1 \<noteq> None
   \<and> splitWithOverlap (str ''abc'') 2 2 = None
   \<and> chunkDocument \<lparr> doc_id = str ''d1'', doc_name = str ''notes'', content = str ''abc'' \<rparr>
                 \<lparr> chunkSize = 2, overlap = 2, preserveLegalCitations = False \<rparr> = None"
  using chunkDocument_no_validation [of 1 2 "str ''abc''"
      "\<lparr> chunkSize = 2, overlap = 2, preserveLegalCitations = False \<rparr>"
      "\<lparr> doc_id = str ''d1'', doc_name = str ''notes'', content = str ''abc'' \<rparr>"]
    chunkDocument_no_validation [of 2 2 "str ''abc''"
      "\<lparr> chunkSize = 2, overlap = 2, preserveLegalCitations = False \<rparr>"
      "\<lparr> doc_id = str ''d1'', doc_name = str ''notes'', content = str ''abc'' \<rparr>"]
  by (simp add: str_def)

text \<open>
  C2, as the specification states it: re-assembling the chunks, every chunk but the first
  of its window without its leading \<open>overlap\<close> code units, gives back the document. It
  does not: the line feed before \<open>Article 1\<close> is the separator of the split and is in no
  chunk; a document that is one space has no chunk at all; and with the overlap \<open>-1\<close>,
  which is below the chunk size, the window skips a code unit at every step. In each case
  the chunks together hold fewer code units than the document, so that by \<open>no_reassembly\<close>
  no grouping of them into windows re-assembles to it.
\<close>

theorem chunkDocument_drops_text_counterexample:
  "chunkDocument \<lparr> doc_id = str ''d1'', doc_name = str ''notes'',
                   content = str ''a'' @ [10] @ str ''Article 1'' \<rparr>
                 \<lparr> chunkSize = 1000, overlap = 200, preserveLegalCitations = True \<rparr>
     = Some [str ''a'', str ''Article 1'']
   \<and> length (concat [str ''a'', str ''Article 1'']) < length (str ''a'' @ [10] @ str ''Article 1'')
   \<and> chunkDocument \<lparr> doc_id = str ''d2'', doc_name = str ''blank'', content = str '' '' \<rparr>
                   \<lparr> chunkSize = 1000, overlap = 200, preserveLegalCitations = True \<rparr>
     = Some []
   \<and> length (concat ([] :: jsstring list)) < length (str '' '')
   \<and> chunkDocument \<lparr> doc_id = str ''d3'', doc_name = str ''letters'', content = str ''abcdef'' \<rparr>
                   \<lparr> chunkSize = 2, overlap = - 1, preserveLegalCitations = True \<rparr>
     = Some [str ''ab'', str ''de'']
   \<and> length (concat [str ''ab'', str ''de'']) < length (str ''abcdef'')"
proof -
  have 1: "chunkDocument \<lparr> doc_id = str ''d1'', doc_name = str ''notes'',
                   content = str ''a'' @ [10] @ str ''Article 1'' \<rparr>
                 \<lparr> chunkSize = 1000, overlap = 200, preserveLegalCitations = True \<rparr>
     = Some [str ''a'', str ''Article 1'']"
    by (simp add: eval_defs)
  have 2: "chunkDocument \<lparr> doc_id = str ''d2'', doc_name = str ''blank'', content = str '' '' \<rparr>
                   \<lparr> chunkSize = 1000, overlap = 200, preserveLegalCitations = True \<rparr>
     = Some []"
    by (simp add: eval_defs)
  have 3: "chunkDocument \<lparr> doc_id = str ''d3'', doc_name = str ''letters'', content = str ''abcdef'' \<rparr>
                   \<lparr> chunkSize = 2, overlap = - 1, preserveLegalCitations = True \<rparr>
     = Some [str ''ab'', str ''de'']"
    by (simp add: eval_defs splitWithOverlap_loop.simps)
  have 4: "length (concat [str ''a'', str ''Article 1'']) < length (str ''a'' @ [10] @ str ''Article 1'')"
    "length (concat ([] :: jsstring list)) < length (str '' '')"
    "length (concat [str ''ab'', str ''de'']) < length (str ''abcdef'')"
    by (simp_all add: str_def)
  from 1 2 3 4 show ?thesis by blast
qed

text \<open>
  C2, amended. With citation preservation and \<open>0 \<le> overlap < chunkSize\<close>, \<open>chunkDocument\<close>
  returns, its chunks are the windows of the sections of \<open>splitByLegalSections\<close> one after
  the other, and re-assembling a window (the first chunk whole, every later chunk without
  its leading \<open>overlap\<close> code units) gives back its section exactly. The sections are what
  is left of the document when it is cut at line feeds, one line feed being removed at
  each cut and nothing else, and the pieces that are whitespace only are discarded: the
  pieces joined by line feeds are the document exactly, and the re-assembled windows are
  the pieces that are not whitespace only, in order. The re-assembled text is thus a
  subsequence of the document, and it is the document itself when the document has no
  line feed and is not whitespace only.
\<close>

theorem chunkDocument_reassembles_sections:
  assumes "preserveLegalCitations opts" and "0 \<le> overlap opts" and "overlap opts < chunkSize opts"
  shows "\<exists>windows pieces.
           chunkDocument doc opts = Some (concat windows)
         \<and> map (spec_reassemble (overlap opts)) windows = splitByLegalSections (document.content doc)
         \<and> join [10] pieces = document.content doc
         \<and> map (spec_reassemble (overlap opts)) windows
             = filter (\<lambda>s. length (trim s) > 0) pieces
         \<and> subseq (concat (map (spec_reassemble (overlap opts)) windows)) (document.content doc)
         \<and> (10 \<notin> set (document.content doc) \<and> trim (document.content doc) \<noteq> []
              \<longrightarrow> concat (map (spec_reassemble (overlap opts)) windows) = document.content doc)"
proof -
  from chunk_sections_windows [OF assms(2,3), of "splitByLegalSections (document.content doc)" "[]"]
  obtain windows where
    w: "chunk_sections (chunkSize opts) (overlap opts) (splitByLegalSections (document.content doc)) []
          = Some ([] @ concat windows)"
       "map (spec_reassemble (overlap opts)) windows = splitByLegalSections (document.content doc)"
    by blast
  from sections_pieces [of "document.content doc"] obtain pieces where
    p: "join [10] pieces = document.content doc"
       "splitByLegalSections (document.content doc) = filter (\<lambda>s. length (trim s) > 0) pieces"
    by blast
  have 1: "chunkDocument doc opts = Some (concat windows)"
    using w(1) assms(1) by (simp add: chunkDocument_def)
  have 2: "map (spec_reassemble (overlap opts)) windows = filter (\<lambda>s. length (trim s) > 0) pieces"
    using w(2) p(2) by simp
  have 3: "subseq (concat (map (spec_reassemble (overlap opts)) windows)) (document.content doc)"
    unfolding w(2) by (rule subseq_sections)
  have 4: "10 \<notin> set (document.content doc) \<and> trim (document.content doc) \<noteq> []
              \<longrightarrow> concat (map (spec_reassemble (overlap opts)) windows) = document.content doc"
    unfolding w(2) by (simp add: splitByLegalSections_no_newline)
  from 1 w(2) p(1) 2 3 4 show ?thesis by blast
qed

theorem chunkDocument_reassembles_sections_witness:
  "\<exists>windows.
     chunkDocument \<lparr> doc_id = str ''d3'', doc_name = str ''letters'', content = str ''abcdefghij'' \<rparr>
                   \<lparr> chunkSize = 4, overlap = 1, preserveLegalCitations = True \<rparr>
       = Some (concat windows)
     \<and> concat (map (spec_reassemble 1) windows) = str ''abcdefghij''"
proof -
  have n: "10 \<notin> set (str ''abcdefghij'')" by (simp add: str_def)
  have t: "trim (str ''abcdefghij'') \<noteq> []" by (simp add: str_def trim_def is_space_def)
  show ?thesis
    using chunkDocument_reassembles_sections
      [of "\<lparr> chunkSize = 4, overlap = 1, preserveLegalCitations = True \<rparr>"
          "\<lparr> doc_id = str ''d3'', doc_name = str ''letters'', content = str ''abcdefghij'' \<rparr>"]
      n t
    by auto
qed

section \<open>Properties of extractLegalReferences\<close>

lemma run_le: "run ic a s \<le> length s"
  by (simp add: run_def length_takeWhile_le)

lemma matches_bound: "(k, c') \<in> set (matches ic r s c) \<Longrightarrow> k \<le> length s"
proof (induction r arbitrary: k c' s c)
  case (Plus a)
  then show ?case using run_le [of ic a s] by auto
next
  case (Star a)
  then show ?case using run_le [of ic a s] by auto
next
  case (Times n a)
  then show ?case using run_le [of ic a s] by (auto split: if_splits)
next
  case (Seq r1 r2)
  from Seq.prems obtain k1 c1 k2 where
    a: "(k1, c1) \<in> set (matches ic r1 s c)" and
    b: "(k2, c') \<in> set (matches ic r2 (drop k1 s) c1)" and k: "k = k1 + k2"
    by auto
  from Seq.IH(1) [OF a] Seq.IH(2) [OF b] show ?case
    unfolding k by simp
next
  case (Look r)
  then show ?case by (auto split: list.splits)
qed (auto split: if_splits list.splits)

lemma matches_nonnull:
  "nonnull r \<Longrightarrow> (k, c') \<in> set (matches ic r s c) \<Longrightarrow> 0 < k"
proof (induction r arbitrary: k c' s c)
  case (Seq r1 r2)
  from Seq.prems(2) obtain k1 c1 k2 where
    a: "(k1, c1) \<in> set (matches ic r1 s c)" and
    b: "(k2, c') \<in> set (matches ic r2 (drop k1 s) c1)" and k: "k = k1 + k2"
    by auto
  from Seq.prems(1) Seq.IH(1) [OF _ a] Seq.IH(2) [OF _ b] show ?case
    unfolding k by auto
qed (auto split: if_splits list.splits)

lemma search_bounds:
  "search re i s = Some mt \<Longrightarrow>
   i \<le> index mt \<and> index mt + length (matched mt) \<le> i + length s
   \<and> (nonnull (pattern re) \<longrightarrow> matched mt \<noteq> [])"
proof (induction s arbitrary: i)
  case Nil
  show ?case
  proof (cases "matches (ignoreCase re) (pattern re) [] []")
    case Nil
    with \<open>search re i [] = Some mt\<close> show ?thesis by simp
  next
    case (Cons kc rest)
    obtain k c where kc: "kc = (k, c)" by (cases kc)
    have mem: "(k, c) \<in> set (matches (ignoreCase re) (pattern re) [] [])"
      using Cons kc by simp
    have "nonnull (pattern re) \<longrightarrow> 0 < k"
      using matches_nonnull [OF _ mem] by blast
    moreover have "k \<le> 0" using matches_bound [OF mem] by simp
    moreover have "mt = \<lparr> index = i, matched = [], groups = c \<rparr>"
      using \<open>search re i [] = Some mt\<close> Cons kc by simp
    ultimately show ?thesis by auto
  qed
next
  case (Cons x s)
  show ?case
  proof (cases "matches (ignoreCase re) (pattern re) (x # s) []")
    case Nil
    with Cons.prems have "search re (Suc i) s = Some mt" by simp
    from Cons.IH [OF this] show ?thesis by simp
  next
    case (Cons kc rest)
    obtain k c where kc: "kc = (k, c)" by (cases kc)
    have mem: "(k, c) \<in> set (matches (ignoreCase re) (pattern re) (x # s) [])"
      using Cons kc by simp
    have le: "k \<le> length (x # s)" using matches_bound [OF mem] .
    have mt: "mt = \<lparr> index = i, matched = take k (x # s), groups = c \<rparr>"
      using Cons.prems Cons kc by simp
    have "nonnull (pattern re) \<longrightarrow> 0 < k"
      using matches_nonnull [OF _ mem] by blast
    then show ?thesis using le by (auto simp: mt)
  qed
qed

lemma exec_bounds:
  assumes "exec re tx li = Some mt"
  shows "li \<le> index mt" "index mt + length (matched mt) \<le> length tx"
    "nonnull (pattern re) \<Longrightarrow> 0 < length (matched mt)"
proof -
  from assms have le: "li \<le> length tx" and s: "search re li (drop li tx) = Some mt"
    by (auto simp: exec_def split: if_splits)
  from search_bounds [OF s] le show "li \<le> index mt"
    "index mt + length (matched mt) \<le> length tx"
    "nonnull (pattern re) \<Longrightarrow> 0 < length (matched mt)"
    by auto
qed

lemma exec_loop_matches:
  assumes "nonnull (pattern re)"
  shows "\<exists>ms. (\<forall>acc. exec_loop re id tx li acc = Some (acc @ ms))
               \<and> sorted_wrt (<) (map index ms) \<and> (\<forall>m\<in>set ms. li \<le> index m)"
proof (induction "Suc (length tx) - li" arbitrary: li rule: less_induct)
  case less
  show ?case
  proof (cases "exec re tx li")
    case None
    then have "\<forall>acc. exec_loop re id tx li acc = Some (acc @ [])"
      by (subst exec_loop.simps) simp
    then show ?thesis by (intro exI [of _ "[]"]) simp
  next
    case (Some mt)
    note b = exec_bounds [OF Some]
    let ?li = "index mt + length (matched mt)"
    have "Suc (length tx) - ?li < Suc (length tx) - li"
      using b(1,2) b(3) [OF assms] by linarith
    from less [OF this] obtain ms where
      ms: "\<forall>acc. exec_loop re id tx ?li acc = Some (acc @ ms)"
        "sorted_wrt (<) (map index ms)" "\<forall>m\<in>set ms. ?li \<le> index m"
      by blast
    have "\<forall>acc. exec_loop re id tx li acc = Some (acc @ mt # ms)"
      using Some ms(1) by (subst exec_loop.simps) simp
    moreover have "sorted_wrt (<) (map index (mt # ms))"
    proof -
      have "index mt < index m" if "m \<in> set ms" for m
      proof -
        have "?li \<le> index m" using ms(3) that by blast
        then show ?thesis using b(3) [OF assms] by linarith
      qed
      then show ?thesis using ms(2) by auto
    qed
    moreover have "\<forall>m\<in>set (mt # ms). li \<le> index m"
      using ms(3) b(1) by fastforce
    ultimately show ?thesis by blast
  qed
qed

lemma exec_loop_map:
  assumes "nonnull (pattern re)"
  shows "exec_loop re id tx li [] = Some ms \<Longrightarrow>
         exec_loop re mk tx li refs = Some (refs @ map mk ms)"
proof (induction "Suc (length tx) - li" arbitrary: li refs ms rule: less_induct)
  case less
  show ?case
  proof (cases "exec re tx li")
    case None
    with less.prems have "ms = []"
      by (subst (asm) exec_loop.simps) simp
    then show ?thesis using None by (subst exec_loop.simps) simp
  next
    case (Some mt)
    note b = exec_bounds [OF Some]
    let ?li = "index mt + length (matched mt)"
    have m: "Suc (length tx) - ?li < Suc (length tx) - li"
      using b(1,2) b(3) [OF assms] by linarith
    from exec_loop_matches [OF assms, of tx ?li] obtain ms' where
      ms': "\<forall>acc. exec_loop re id tx ?li acc = Some (acc @ ms')"
      by blast
    have "exec_loop re id tx li [] = Some ([mt] @ ms')"
      using Some ms' by (subst exec_loop.simps) simp
    with less.prems have ms: "ms = mt # ms'" by simp
    have "exec_loop re id tx ?li [] = Some ms'"
      using ms' by (metis append_Nil)
    from less.hyps [OF m this, of "refs @ [mk mt]"] show ?thesis
      using Some by (subst exec_loop.simps) (simp add: ms)
  qed
qed

lemma search_first:
  "search re i s = Some mt \<Longrightarrow>
   i \<le> index mt \<and> index mt - i \<le> length s
   \<and> (\<exists>k c rest. matches (ignoreCase re) (pattern re) (drop (index mt - i) s) [] = (k, c) # rest
          \<and> matched mt = take k (drop (index mt - i) s) \<and> groups mt = c)
   \<and> (\<forall>d < index mt - i. matches (ignoreCase re) (pattern re) (drop d s) [] = [])"
proof (induction s arbitrary: i)
  case Nil
  then show ?case by (auto split: list.splits)
next
  case (Cons x s)
  show ?case
  proof (cases "matches (ignoreCase re) (pattern re) (x # s) []")
    case Nil
    with Cons.prems have "search re (Suc i) s = Some mt" by simp
    from Cons.IH [OF this] have
      le: "Suc i \<le> index mt" and len: "index mt - Suc i \<le> length s"
      and ex: "\<exists>k c rest. matches (ignoreCase re) (pattern re) (drop (index mt - Suc i) s) []
                  = (k, c) # rest
                \<and> matched mt = take k (drop (index mt - Suc i) s) \<and> groups mt = c"
      and none: "\<forall>d < index mt - Suc i. matches (ignoreCase re) (pattern re) (drop d s) [] = []"
      by blast+
    have off: "index mt - i = Suc (index mt - Suc i)" using le by simp
    have "\<forall>d < index mt - i. matches (ignoreCase re) (pattern re) (drop d (x # s)) [] = []"
    proof (intro allI impI)
      fix d assume d: "d < index mt - i"
      show "matches (ignoreCase re) (pattern re) (drop d (x # s)) [] = []"
      proof (cases d)
        case 0
        then show ?thesis using Nil by simp
      next
        case (Suc d')
        then show ?thesis using none d off by simp
      qed
    qed
    then show ?thesis using le len ex by (simp add: off)
  next
    case (Cons kc rest)
    obtain k c where kc: "kc = (k, c)" by (cases kc)
    have "mt = \<lparr> index = i, matched = take k (x # s), groups = c \<rparr>"
      using Cons.prems Cons kc by simp
    then show ?thesis using Cons kc by simp
  qed
qed

lemma search_none:
  "search re i s = None \<Longrightarrow>
   \<forall>d \<le> length s. matches (ignoreCase re) (pattern re) (drop d s) [] = []"
proof (induction s arbitrary: i)
  case Nil
  then show ?case by (auto split: list.splits)
next
  case (Cons x s)
  have here: "matches (ignoreCase re) (pattern re) (x # s) [] = []"
    using Cons.prems by (auto split: list.splits)
  then have "search re (Suc i) s = None" using Cons.prems by simp
  from Cons.IH [OF this] have
    rest: "\<forall>d \<le> length s. matches (ignoreCase re) (pattern re) (drop d s) [] = []" .
  show ?case
  proof (intro allI impI)
    fix d assume d: "d \<le> length (x # s)"
    show "matches (ignoreCase re) (pattern re) (drop d (x # s)) [] = []"
    proof (cases d)
      case 0
      then show ?thesis using here by simp
    next
      case (Suc d')
      then show ?thesis using rest d by simp
    qed
  qed
qed

lemma drop_offset: "li \<le> j \<Longrightarrow> drop (j - li) (drop li tx) = drop j tx"
  by simp

lemma exec_reports:
  assumes "exec re tx li = Some mt"
  shows "reports re tx mt" and "\<forall>j. li \<le> j \<and> j < index mt \<longrightarrow> \<not> occurs_at re tx j"
proof -
  from assms have le: "li \<le> length tx" and s: "search re li (drop li tx) = Some mt"
    by (auto simp: exec_def split: if_splits)
  from search_first [OF s] obtain k c rest where
    i: "li \<le> index mt" "index mt - li \<le> length (drop li tx)"
    and m: "matches (ignoreCase re) (pattern re) (drop (index mt - li) (drop li tx)) []
              = (k, c) # rest"
       "matched mt = take k (drop (index mt - li) (drop li tx))" "groups mt = c"
    and none: "\<forall>d < index mt - li.
                 matches (ignoreCase re) (pattern re) (drop d (drop li tx)) [] = []"
    by blast
  have d: "drop (index mt - li) (drop li tx) = drop (index mt) tx"
    using i(1) by (rule drop_offset)
  show "reports re tx mt"
    using i le m unfolding d by (simp add: reports_def)
  show "\<forall>j. li \<le> j \<and> j < index mt \<longrightarrow> \<not> occurs_at re tx j"
  proof (intro allI impI)
    fix j assume j: "li \<le> j \<and> j < index mt"
    then have "j - li < index mt - li" by linarith
    with none have "matches (ignoreCase re) (pattern re) (drop (j - li) (drop li tx)) [] = []"
      by blast
    moreover have "drop (j - li) (drop li tx) = drop j tx"
      using j by (intro drop_offset) simp
    ultimately show "\<not> occurs_at re tx j" by (simp add: occurs_at_def)
  qed
qed

lemma exec_none:
  assumes "exec re tx li = None"
  shows "\<forall>j. li \<le> j \<longrightarrow> \<not> occurs_at re tx j"
proof (intro allI impI)
  fix j assume j: "li \<le> j"
  show "\<not> occurs_at re tx j"
  proof (cases "j \<le> length tx")
    case False
    then show ?thesis by (simp add: occurs_at_def)
  next
    case True
    then have "search re li (drop li tx) = None"
      using assms j by (auto simp: exec_def split: if_splits)
    from search_none [OF this]
    have all: "\<forall>d \<le> length (drop li tx).
                 matches (ignoreCase re) (pattern re) (drop d (drop li tx)) [] = []" .
    have "j - li \<le> length (drop li tx)" using True j by simp
    with all have "matches (ignoreCase re) (pattern re) (drop (j - li) (drop li tx)) [] = []"
      by blast
    moreover have "drop (j - li) (drop li tx) = drop j tx"
      using j by (rule drop_offset)
    ultimately show ?thesis by (simp add: occurs_at_def)
  qed
qed


lemma exec_loop_all:
  assumes "nonnull (pattern re)"
  shows "exec_loop re id tx li [] = Some ms \<Longrightarrow>
         list_all (reports re tx) ms
         \<and> sorted_wrt (\<lambda>a b. index a + length (matched a) \<le> index b) ms
         \<and> (\<forall>j. li \<le> j \<and> occurs_at re tx j \<longrightarrow>
                (\<exists>m\<in>set ms. index m \<le> j \<and> j < index m + length (matched m)))"
proof (induction "Suc (length tx) - li" arbitrary: li ms rule: less_induct)
  case less
  show ?case
  proof (cases "exec re tx li")
    case None
    with less.prems have "ms = []"
      by (subst (asm) exec_loop.simps) simp
    then show ?thesis using exec_none [OF None] by simp
  next
    case (Some mt)
    note b = exec_bounds [OF Some]
    note r = exec_reports [OF Some]
    let ?li = "index mt + length (matched mt)"
    have m: "Suc (length tx) - ?li < Suc (length tx) - li"
      using b(1,2) b(3) [OF assms] by linarith
    from exec_loop_matches [OF assms, of tx ?li] obtain ms' where
      ms': "\<forall>acc. exec_loop re id tx ?li acc = Some (acc @ ms')"
      and after: "\<forall>m\<in>set ms'. ?li \<le> index m"
      by blast
    have "exec_loop re id tx li [] = Some ([mt] @ ms')"
      using Some ms' by (subst exec_loop.simps) simp
    with less.prems have ms: "ms = mt # ms'" by simp
    have "exec_loop re id tx ?li [] = Some ms'"
      using ms' by (metis append_Nil)
    from less.hyps [OF m this] have
      ih1: "list_all (reports re tx) ms'"
      and ih2: "sorted_wrt (\<lambda>a b. index a + length (matched a) \<le> index b) ms'"
      and ih3: "\<forall>j. ?li \<le> j \<and> occurs_at re tx j \<longrightarrow>
                  (\<exists>m\<in>set ms'. index m \<le> j \<and> j < index m + length (matched m))"
      by blast+
    have c: "\<exists>m\<in>set (mt # ms'). index m \<le> j \<and> j < index m + length (matched m)"
      if j: "li \<le> j \<and> occurs_at re tx j" for j
    proof (cases "j < ?li")
      case True
      have "\<not> j < index mt" using r(2) j by blast
      then show ?thesis using True by auto
    next
      case False
      then have "?li \<le> j \<and> occurs_at re tx j" using j by simp
      with ih3 show ?thesis by auto
    qed
    show ?thesis
      unfolding ms using r(1) ih1 ih2 after c by auto
  qed
qed

lemma exec_loop_spec_all_matches:
  assumes "nonnull (pattern re)" and "exec_loop re id tx 0 [] = Some ms"
  shows "spec_all_matches re tx ms"
  using exec_loop_all [OF assms]
  by (auto simp: spec_all_matches_def list_all_iff list_ex_iff)

lemma nonnull_patterns:
  "nonnull (pattern gdprPattern)" "nonnull (pattern aiActPattern)"
  "nonnull (pattern dlgsPattern)" "nonnull (pattern garantePattern)"
  by (simp_all add: gdprPattern_def aiActPattern_def dlgsPattern_def garantePattern_def
      seq_def str_def)

lemma seq_results_eq:
  "seq_results ic r2 s res
     = concat (map (\<lambda>(k1, c1). map (\<lambda>(k2, c2). (k1 + k2, c2)) (matches ic r2 (drop k1 s) c1)) res)"
  by (induction res) auto

lemma matches_Seq: "matches ic (Seq r1 r2) s c = seq_results ic r2 s (matches ic r1 s c)"
  by (simp add: seq_results_eq)

lemmas matches_eval = matches.simps(1-5) matches_Seq matches.simps(7-10)

lemmas regex_eval = exec_loop.simps exec_def gdprPattern_def aiActPattern_def dlgsPattern_def
  garantePattern_def seq_def str_def canonicalize_def run_def is_space_def is_digit_def
  gdpr_reference_def aiAct_reference_def dlgs_reference_def garante_reference_def
  group_def or_null_def matches_eval

text \<open>
  C4, as the specification states it: the references come in the order in which they
  occur in the text, across the four families. In \<open>Article 1 AI Act Article 2 GDPR\<close> the
  AI Act reference starts at position 0 and the GDPR reference at position 17, and the
  GDPR reference is returned first.
\<close>

theorem extractLegalReferences_order_counterexample:
  "extractLegalReferences (str ''Article 1 AI Act Article 2 GDPR'')
     = Some [GDPR (Some (str ''2'')) None None (str ''Article 2 GDPR''),
             AI_Act (Some (str ''1'')) (str ''Article 1 AI Act'')]
   \<and> map_option (map index) (exec_loop gdprPattern id (str ''Article 1 AI Act Article 2 GDPR'') 0 [])
       = Some [17]
   \<and> map_option (map index) (exec_loop aiActPattern id (str ''Article 1 AI Act Article 2 GDPR'') 0 [])
       = Some [0]"
  by (simp add: extractLegalReferences_def regex_eval del: matches.simps(6))

text \<open>
  C4, amended. \<open>extractLegalReferences\<close> returns for every text, and its result depends on
  the text alone. The references are grouped by family, in the order GDPR, AI Act,
  legislative decree, Garante decision. Within a family there is exactly one reference for
  every match of the family's pattern, built from that match, in the order of the
  positions at which the matches start; the matches are all the matches of the pattern
  that a scan from left to right finds without overlap: each is the match the pattern has
  at its position, none starts before its predecessor ends, and every position at which
  the pattern matches is the start of one of them or lies inside one. Nothing is
  deduplicated.
\<close>

theorem extractLegalReferences_by_family:
  "\<exists>g a d p.
      exec_loop gdprPattern id tx 0 [] = Some g
    \<and> exec_loop aiActPattern id tx 0 [] = Some a
    \<and> exec_loop dlgsPattern id tx 0 [] = Some d
    \<and> exec_loop garantePattern id tx 0 [] = Some p
    \<and> extractLegalReferences tx
         = Some (map gdpr_reference g @ map aiAct_reference a
                 @ map dlgs_reference d @ map garante_reference p)
    \<and> sorted_wrt (<) (map index g) \<and> sorted_wrt (<) (map index a)
    \<and> sorted_wrt (<) (map index d) \<and> sorted_wrt (<) (map index p)
    \<and> spec_all_matches gdprPattern tx g \<and> spec_all_matches aiActPattern tx a
    \<and> spec_all_matches dlgsPattern tx d \<and> spec_all_matches garantePattern tx p"
proof -
  have ex: "\<exists>ms. exec_loop re id tx 0 [] = Some ms \<and> sorted_wrt (<) (map index ms)
              \<and> spec_all_matches re tx ms"
    if "nonnull (pattern re)" for re
  proof -
    from exec_loop_matches [OF that, of tx 0] obtain ms where
      ms: "exec_loop re id tx 0 [] = Some ms" "sorted_wrt (<) (map index ms)"
      by (metis append_Nil)
    from exec_loop_spec_all_matches [OF that ms(1)] ms show ?thesis by blast
  qed
  from ex [OF nonnull_patterns(1)] obtain g where
    g: "exec_loop gdprPattern id tx 0 [] = Some g" "sorted_wrt (<) (map index g)"
       "spec_all_matches gdprPattern tx g" by blast
  from ex [OF nonnull_patterns(2)] obtain a where
    a: "exec_loop aiActPattern id tx 0 [] = Some a" "sorted_wrt (<) (map index a)"
       "spec_all_matches aiActPattern tx a" by blast
  from ex [OF nonnull_patterns(3)] obtain d where
    d: "exec_loop dlgsPattern id tx 0 [] = Some d" "sorted_wrt (<) (map index d)"
       "spec_all_matches dlgsPattern tx d" by blast
  from ex [OF nonnull_patterns(4)] obtain p where
    p: "exec_loop garantePattern id tx 0 [] = Some p" "sorted_wrt (<) (map index p)"
       "spec_all_matches garantePattern tx p" by blast
  have "extractLegalReferences tx
         = Some (map gdpr_reference g @ map aiAct_reference a
                 @ map dlgs_reference d @ map garante_reference p)"
    by (simp add: extractLegalReferences_def
        exec_loop_map [OF nonnull_patterns(1) g(1)] exec_loop_map [OF nonnull_patterns(2) a(1)]
        exec_loop_map [OF nonnull_patterns(3) d(1)] exec_loop_map [OF nonnull_patterns(4) p(1)])
  with g a d p show ?thesis by blast
qed

theorem extractLegalReferences_by_family_witness:
  "extractLegalReferences (str ''Article 5 GDPR, Article 5 GDPR'')
     = Some [GDPR (Some (str ''5'')) None None (str ''Article 5 GDPR''),
             GDPR (Some (str ''5'')) None None (str ''Article 5 GDPR'')]
   \<and> map_option (map index) (exec_loop gdprPattern id (str ''Article 5 GDPR, Article 5 GDPR'') 0 [])
       = Some [0, 16]"
  using extractLegalReferences_by_family [of "str ''Article 5 GDPR, Article 5 GDPR''"]
  by (simp add: regex_eval del: matches.simps(6))

section \<open>Properties of the compliance scorer\<close>

text \<open>On the three severities of the data model the code's tables and the specification's agree.\<close>

lemma penalty_valid:
  "sev \<in> valid_severities \<Longrightarrow> penalty_or_default sev = Num (spec_penalty sev)"
  by (auto simp: valid_severities_def penalty_or_default_def get_prop_def penalties_def
      spec_penalty_def str_def)

lemma band_valid:
  "sev \<in> valid_severities \<Longrightarrow> fine_band sev = (Num (spec_band_min sev), Num (spec_band_max sev))"
  by (auto simp: valid_severities_def fine_band_def get_prop_def baseFines_def
      spec_band_min_def spec_band_max_def str_def)

lemma score_fold:
  "\<forall>v\<in>set vs. severity v \<in> valid_severities \<Longrightarrow>
   foldl (\<lambda>score v. num_sub score (penalty_or_default (severity v))) (Num a) vs
     = Num (a - (\<Sum>v\<leftarrow>vs. spec_penalty (severity v)))"
  by (induction vs arbitrary: a) (simp_all add: penalty_valid algebra_simps)

lemma fine_fold:
  "\<forall>v\<in>set vs. severity v \<in> valid_severities \<Longrightarrow>
   foldl (\<lambda>(minTotal, maxTotal) v.
                 let range = fine_band (severity v)
                 in (num_add minTotal (fst range), num_add maxTotal (snd range)))
              (Num a, Num b) vs
     = (Num (a + (\<Sum>v\<leftarrow>vs. spec_band_min (severity v))),
        Num (b + (\<Sum>v\<leftarrow>vs. spec_band_max (severity v))))"
  by (induction vs arbitrary: a b) (simp_all add: band_valid algebra_simps)

lemma spec_penalty_nonneg: "0 \<le> spec_penalty s"
  by (simp add: spec_penalty_def)

lemma sum_penalty_nonneg: "0 \<le> (\<Sum>v\<leftarrow>vs. spec_penalty (severity v))"
  by (induction vs) (simp_all add: spec_penalty_nonneg)

text \<open>
  C7. On every list of violations with severities among critical, high and medium,
  \<open>calculateComplianceScore\<close> is \<open>max(0, 100 - \<Sum> penalty)\<close> with the penalties 25, 15 and 5;
  appending violations never raises the score, the score is never below 0, and five
  critical violations give exactly 0.
\<close>

theorem calculateComplianceScore_formula:
  assumes "\<forall>v\<in>set vs. severity v \<in> valid_severities"
    and "\<forall>v\<in>set ws. severity v \<in> valid_severities"
  shows "calculateComplianceScore vs
           = Num (max 0 (100 - (\<Sum>v\<leftarrow>vs. spec_penalty (severity v))))
       \<and> num_le (calculateComplianceScore (vs @ ws)) (calculateComplianceScore vs)
       \<and> num_le (Num 0) (calculateComplianceScore vs)
       \<and> calculateComplianceScore
            (replicate 5 \<lparr>type = t, severity = str ''critical'', affectsMinors = m\<rparr>) = Num 0"
proof -
  have all: "\<forall>v\<in>set (vs @ ws). severity v \<in> valid_severities"
    using assms by auto
  have one: "calculateComplianceScore us
           = Num (max 0 (100 - (\<Sum>v\<leftarrow>us. spec_penalty (severity v))))"
    if "\<forall>v\<in>set us. severity v \<in> valid_severities" for us :: "'a violation_scheme list"
    using that by (simp add: calculateComplianceScore_def score_fold)
  have five: "calculateComplianceScore
            (replicate 5 \<lparr>type = t, severity = str ''critical'', affectsMinors = m\<rparr>) = Num 0"
    by (simp add: calculateComplianceScore_def penalty_or_default_def get_prop_def
        penalties_def str_def numeral_eq_Suc)
  have mono: "num_le (calculateComplianceScore (vs @ ws)) (calculateComplianceScore vs)"
    using sum_penalty_nonneg [of ws] by (simp add: one [OF all] one [OF assms(1)])
  show ?thesis
    using one [OF assms(1)] mono five by simp
qed

theorem calculateComplianceScore_formula_witness:
  "set (map severity [\<lparr>type = str ''a'', severity = str ''high'', affectsMinors = None\<rparr>])
     \<subseteq> valid_severities
   \<and> calculateComplianceScore [\<lparr>type = str ''a'', severity = str ''high'', affectsMinors = None\<rparr>]
     = Num 85
   \<and> num_le (calculateComplianceScore
        [\<lparr>type = str ''a'', severity = str ''high'', affectsMinors = None\<rparr>,
         \<lparr>type = str ''b'', severity = str ''medium'', affectsMinors = None\<rparr>])
       (calculateComplianceScore
        [\<lparr>type = str ''a'', severity = str ''high'', affectsMinors = None\<rparr>])"
  using calculateComplianceScore_formula
    [of "[\<lparr>type = str ''a'', severity = str ''high'', affectsMinors = None\<rparr>]"
        "[\<lparr>type = str ''b'', severity = str ''medium'', affectsMinors = None\<rparr>]"
        "str ''c''" None]
  by (auto simp: valid_severities_def spec_penalty_def str_def)

text \<open>
  C8. On every list of violations with severities among critical, high and medium,
  \<open>estimateFineRange\<close> adds up the band minima and the band maxima of the table; one
  critical and one high violation give \<open>min = 100000 + 50000\<close> and \<open>max = 500000 + 200000\<close>.
\<close>

theorem estimateFineRange_additive:
  assumes "\<forall>v\<in>set vs. severity v \<in> valid_severities"
  shows "estimateFineRange vs
           = \<lparr> min_fine = Num (\<Sum>v\<leftarrow>vs. spec_band_min (severity v)),
               max_fine = Num (\<Sum>v\<leftarrow>vs. spec_band_max (severity v)) \<rparr>
       \<and> estimateFineRange
            [\<lparr>type = t1, severity = str ''critical'', affectsMinors = m1\<rparr>,
             \<lparr>type = t2, severity = str ''high'', affectsMinors = m2\<rparr>]
           = \<lparr> min_fine = Num (100000 + 50000), max_fine = Num (500000 + 200000) \<rparr>"
proof -
  have "estimateFineRange vs
           = \<lparr> min_fine = Num (\<Sum>v\<leftarrow>vs. spec_band_min (severity v)),
               max_fine = Num (\<Sum>v\<leftarrow>vs. spec_band_max (severity v)) \<rparr>"
    using fine_fold [OF assms, of 0 0] by (simp add: estimateFineRange_def)
  moreover have "estimateFineRange
            [\<lparr>type = t1, severity = str ''critical'', affectsMinors = m1\<rparr>,
             \<lparr>type = t2, severity = str ''high'', affectsMinors = m2\<rparr>]
           = \<lparr> min_fine = Num (100000 + 50000), max_fine = Num (500000 + 200000) \<rparr>"
    by (simp add: estimateFineRange_def fine_band_def get_prop_def baseFines_def str_def)
  ultimately show ?thesis by simp
qed

theorem estimateFineRange_additive_witness:
  "set (map severity [\<lparr>type = str ''a'', severity = str ''medium'', affectsMinors = None\<rparr>,
              \<lparr>type = str ''b'', severity = str ''critical'', affectsMinors = Some True\<rparr>])
     \<subseteq> valid_severities
   \<and> estimateFineRange [\<lparr>type = str ''a'', severity = str ''medium'', affectsMinors = None\<rparr>,
              \<lparr>type = str ''b'', severity = str ''critical'', affectsMinors = Some True\<rparr>]
     = \<lparr> min_fine = Num 110000, max_fine = Num 550000 \<rparr>"
  using estimateFineRange_additive
    [of "[\<lparr>type = str ''a'', severity = str ''medium'', affectsMinors = None\<rparr>,
              \<lparr>type = str ''b'', severity = str ''critical'', affectsMinors = Some True\<rparr>]"
        "str ''c''" None "str ''d''" None]
  by (simp add: valid_severities_def spec_band_min_def spec_band_max_def str_def)









section \<open>Properties of the cookie rule\<close>

lemma includes_sublist: "js_includes s p \<longleftrightarrow> sublist p s"
  by (induction s) (auto simp: sublist_Cons_right)

text \<open>
  C9. For cookies named \<open>session_id\<close> and \<open>_ga\<close>, in this order, \<open>checkCookieCompliance\<close>
  yields exactly one violation, of type \<open>cookie_consent_violation\<close> and severity medium,
  whose evidence is the list with the single name \<open>_ga\<close>; and a cookie is essential
  exactly when its lower-cased name contains session, csrf, auth or security.
\<close>

theorem checkCookieCompliance_session_ga:
  assumes "map name cookies = [str ''session_id'', str ''_ga'']"
  shows "checkCookieCompliance cookies
           = [\<lparr> type = str ''cookie_consent_violation'',
                severity = str ''medium'',
                affectsMinors = None,
                description = str ''1 non-essential cookies set without explicit consent'',
                evidence = [str ''_ga''] \<rparr>]
       \<and> (\<forall>nm. isEssentialCookie nm \<longleftrightarrow>
             (\<exists>p \<in> {str ''session'', str ''csrf'', str ''auth'', str ''security''}.
                \<exists>xs ys. toLowerCase nm = xs @ p @ ys))"
proof -
  obtain c1 c2 where cs: "cookies = [c1, c2]" and n1: "name c1 = str ''session_id''"
    and n2: "name c2 = str ''_ga''"
    using assms by (auto simp: map_eq_Cons_conv)
  have e1: "isEssentialCookie (str ''session_id'')"
    by (simp add: isEssentialCookie_def essentialPatterns_def toLowerCase_def lower_unit_def str_def)
  have e2: "\<not> isEssentialCookie (str ''_ga'')"
    by (simp add: isEssentialCookie_def essentialPatterns_def toLowerCase_def lower_unit_def str_def)
  have d: "toString_nat (Suc 0) @ str '' non-essential cookies set without explicit consent''
             = str ''1 non-essential cookies set without explicit consent''"
    by (simp add: str_def)
  have "checkCookieCompliance cookies
           = [\<lparr> type = str ''cookie_consent_violation'',
                severity = str ''medium'',
                affectsMinors = None,
                description = str ''1 non-essential cookies set without explicit consent'',
                evidence = [str ''_ga''] \<rparr>]"
    using d by (simp add: checkCookieCompliance_def cs n1 n2 e1 e2)
  moreover have "isEssentialCookie nm \<longleftrightarrow>
             (\<exists>p \<in> {str ''session'', str ''csrf'', str ''auth'', str ''security''}.
                \<exists>xs ys. toLowerCase nm = xs @ p @ ys)" for nm
    by (simp add: isEssentialCookie_def essentialPatterns_def includes_sublist sublist_def)
  ultimately show ?thesis by blast
qed

theorem checkCookieCompliance_session_ga_witness:
  "map name [\<lparr>name = str ''session_id'', value = str ''abc''\<rparr>,
             \<lparr>name = str ''_ga'', value = str ''GA1.2''\<rparr>] = [str ''session_id'', str ''_ga'']
   \<and> map evidence (checkCookieCompliance [\<lparr>name = str ''session_id'', value = str ''abc''\<rparr>,
             \<lparr>name = str ''_ga'', value = str ''GA1.2''\<rparr>]) = [[str ''_ga'']]"
  using checkCookieCompliance_session_ga
    [of "[\<lparr>name = str ''session_id'', value = str ''abc''\<rparr>,
             \<lparr>name = str ''_ga'', value = str ''GA1.2''\<rparr>]"]
  by simp

end
